theory Spec2Isabelle
  imports Complex_Main "HOL-Library.AList" "HOL-Library.Multiset"
begin

section \<open>Data model of the event loop (eventloop.py)\<close>

text \<open>
  The three states of an RPC object that the loop inspects
  (\<^verbatim>\<open>apiproxy_rpc.RPC.IDLE\<close>, \<^verbatim>\<open>RUNNING\<close>, \<^verbatim>\<open>FINISHING\<close>).
\<close>

datatype rpc_state = IDLE | RUNNING | FINISHING

text \<open>
  Python exceptions as values. \<open>CallbackError\<close> stands for whatever a user callback
  raises; the other constructors are the exceptions the loop's own code can raise.
\<close>

datatype exn =
    ValueError string
  | IndexError string
  | RuntimeError string
  | TypeError string
  | AttributeError string
  | CallbackError string

text \<open>
  A call either raises or returns. Every operation of the loop returns such a result
  together with the loop as the call left it: a Python exception does not undo the
  mutations made before it.
\<close>

datatype 'a result = Raise exn | Return 'a

text \<open>
  A work item is the tuple \<^verbatim>\<open>(callback, args, kwds)\<close>; a timed event is
  \<^verbatim>\<open>(when, callback, args, kwds)\<close>. User callables are named by values of \<open>'f\<close>
  (plain functions, which have a \<^verbatim>\<open>__name__\<close>), argument values have type \<open>'v\<close>.
  Times are Python floats, modelled as reals: rounding is not modelled.
\<close>

type_synonym ('f, 'v) item = "'f \<times> 'v list \<times> (string \<times> 'v) list"

type_synonym ('f, 'v) event = "real \<times> 'f \<times> 'v list \<times> (string \<times> 'v) list"

text \<open>
  The operation handed to \<^verbatim>\<open>queue_rpc\<close>: a single RPC object, or a
  \<^verbatim>\<open>datastore_rpc.MultiRpc\<close> with its list \<^verbatim>\<open>rpc.rpcs\<close> of sub-RPCs. Objects are
  named by handles of type \<open>'h\<close> (their identity: the table hashes by identity).
\<close>

datatype 'h rpc = UserRPC 'h | MultiRpc 'h "'h list"

text \<open>
  What the pending-operation table stores as a callback: the user's callable, or the
  closure \<^verbatim>\<open>help_multi_rpc_along\<close> with its captured defaults \<^verbatim>\<open>r, c, a, k\<close>.
\<close>

datatype ('f, 'v, 'h) callback =
    Fn 'f
  | HelpMultiRpcAlong 'h "'f option" "'v list" "(string \<times> 'v) list"

text \<open>
  The fields of \<^verbatim>\<open>EventLoop\<close>: \<open>current\<close> and \<open>idlers\<close> are deques, \<open>queue\<close> a list,
  \<open>rpcs\<close> a dict (an association list in insertion order, as Python keeps it).
  Three more fields hold what lives outside the object:
  \<open>multi_done\<close> is the attribute \<^verbatim>\<open>__done\<close> that \<^verbatim>\<open>queue_rpc\<close> sets on MultiRpc objects,
  \<open>trace\<close> records every user callable the loop's code invokes, in order (the loop
  never reads it), and \<open>world\<close> is everything else: the clock, the RPC service and
  whatever the callbacks mutate.
\<close>

record ('f, 'v, 'h, 'w) event_loop =
  current :: "('f, 'v) item list"
  idlers :: "('f, 'v) item list"
  inactive :: nat
  queue :: "('f, 'v) event list"
  rpcs :: "('h \<times> (('f, 'v, 'h) callback option \<times> 'v list \<times> (string \<times> 'v) list)) list"
  multi_done :: "('h \<times> bool) list"
  trace :: "('f, 'v) item list"
  world :: 'w

text \<open>
  The capabilities the loop consumes, none of whose code is part of eventloop.py:
  \<open>call f args kwds\<close> is the effect of calling the user callable \<open>f\<close> (it may mutate
  the loop and the world, may raise, and returns \<^verbatim>\<open>None\<close> or a value of which only
  the truthiness is inspected); \<open>now\<close> and \<open>sleep\<close> are the clock;
  \<open>rpc_state_of\<close> reads \<^verbatim>\<open>rpc.state\<close>; \<open>wait_any\<close> is
  \<^verbatim>\<open>datastore_rpc.MultiRpc.wait_any\<close> applied to the keys of the table.
\<close>

record ('f, 'v, 'h, 'w) env =
  call :: "'f \<Rightarrow> 'v list \<Rightarrow> (string \<times> 'v) list \<Rightarrow> ('f, 'v, 'h, 'w) event_loop
            \<Rightarrow> bool option result \<times> ('f, 'v, 'h, 'w) event_loop"
  now :: "'w \<Rightarrow> real"
  sleep :: "real \<Rightarrow> 'w \<Rightarrow> 'w"
  rpc_state_of :: "'h \<Rightarrow> 'w \<Rightarrow> rpc_state"
  wait_any :: "'h list \<Rightarrow> ('f, 'v, 'h, 'w) event_loop
            \<Rightarrow> 'h option result \<times> ('f, 'v, 'h, 'w) event_loop"

section \<open>The timer queue\<close>

text \<open>Python's \<^verbatim>\<open>xs[i]\<close>: a negative index counts from the end, out of range raises.\<close>

definition getitem :: "'a list \<Rightarrow> int \<Rightarrow> 'a option" where
  "getitem xs i =
     (if - int (length xs) \<le> i \<and> i < 0 then Some (xs ! nat (int (length xs) + i))
      else if 0 \<le> i \<and> i < int (length xs) then Some (xs ! nat i)
      else None)"

text \<open>Python's \<^verbatim>\<open>xs.insert(i, x)\<close>: the index is clamped to the list.\<close>

definition list_insert :: "int \<Rightarrow> 'a \<Rightarrow> 'a list \<Rightarrow> 'a list" where
  "list_insert i x xs =
     (let n = int (length xs); j = (if i < 0 then max 0 (n + i) else min i n)
      in take (nat j) xs @ x # drop (nat j) xs)"

text \<open>The \<^verbatim>\<open>while lo < hi\<close> loop of \<^verbatim>\<open>insort_event_right\<close>; it returns the final \<^verbatim>\<open>lo\<close>.\<close>

function insort_event_right_loop ::
  "real \<Rightarrow> ('f, 'v) event list \<Rightarrow> int \<Rightarrow> int \<Rightarrow> int result" where
  "insort_event_right_loop t q lo hi =
     (if lo < hi then
        (case getitem q ((lo + hi) div 2) of
           None \<Rightarrow> Raise (IndexError ''list index out of range'')
         | Some e \<Rightarrow>
             if t < fst e then insort_event_right_loop t q lo ((lo + hi) div 2)
             else insort_event_right_loop t q ((lo + hi) div 2 + 1) hi)
      else Return lo)"
  by pat_completeness auto
termination
  by (relation "measure (\<lambda>(t, q, lo, hi). nat (hi - lo))") auto

definition insort_event_right ::
  "('f, 'v) event \<Rightarrow> int \<Rightarrow> int option \<Rightarrow> ('f, 'v, 'h, 'w) event_loop
     \<Rightarrow> unit result \<times> ('f, 'v, 'h, 'w) event_loop" where
  "insort_event_right event lo hi s =
     (if lo < 0 then (Raise (ValueError ''lo must be non-negative''), s)
      else
        (case insort_event_right_loop (fst event) (queue s) lo
                (case hi of None \<Rightarrow> int (length (queue s)) | Some h \<Rightarrow> h) of
           Raise e \<Rightarrow> (Raise e, s)
         | Return pos \<Rightarrow> (Return (), s\<lparr>queue := list_insert pos event (queue s)\<rparr>)))"

text \<open>
  \<^verbatim>\<open>queue_call(delay, callback, *args, **kwds)\<close>; the threshold \<^verbatim>\<open>1e9\<close> separates a
  relative delay from an absolute time.
\<close>

definition queue_call ::
  "('f, 'v, 'h, 'w) env \<Rightarrow> real option \<Rightarrow> 'f \<Rightarrow> 'v list \<Rightarrow> (string \<times> 'v) list
     \<Rightarrow> ('f, 'v, 'h, 'w) event_loop \<Rightarrow> unit result \<times> ('f, 'v, 'h, 'w) event_loop" where
  "queue_call e delay callback args kwds s =
     (case delay of
        None \<Rightarrow> (Return (), s\<lparr>current := current s @ [(callback, args, kwds)]\<rparr>)
      | Some d \<Rightarrow>
          insort_event_right
            ((if d < 1000000000 then d + now e (world s) else d), callback, args, kwds)
            0 None s)"

section \<open>The pending-operation table\<close>

text \<open>The object whose \<^verbatim>\<open>state\<close> attribute \<^verbatim>\<open>queue_rpc\<close> reads.\<close>

definition rpc_id :: "'h rpc \<Rightarrow> 'h" where
  "rpc_id r = (case r of UserRPC h \<Rightarrow> h | MultiRpc m subs \<Rightarrow> m)"

text \<open>
  The loop \<^verbatim>\<open>for rpc in rpcs: self.rpcs[rpc] = (callback, args, kwds)\<close>. Assigning to a
  key of a dict replaces the value in place or appends the key.
\<close>

fun register_rpcs ::
  "'h list \<Rightarrow> (('f, 'v, 'h) callback option \<times> 'v list \<times> (string \<times> 'v) list)
     \<Rightarrow> ('f, 'v, 'h, 'w) event_loop \<Rightarrow> ('f, 'v, 'h, 'w) event_loop" where
  "register_rpcs [] entry s = s"
| "register_rpcs (h # hs) entry s =
     register_rpcs hs entry (s\<lparr>rpcs := AList.update h entry (rpcs s)\<rparr>)"

definition queue_rpc ::
  "('f, 'v, 'h, 'w) env \<Rightarrow> 'h rpc option \<Rightarrow> 'f option \<Rightarrow> 'v list \<Rightarrow> (string \<times> 'v) list
     \<Rightarrow> ('f, 'v, 'h, 'w) event_loop \<Rightarrow> unit result \<times> ('f, 'v, 'h, 'w) event_loop" where
  "queue_rpc e rpc callback args kwds s =
     (case rpc of
        None \<Rightarrow> (Return (), s)
      | Some r \<Rightarrow>
          if rpc_state_of e (rpc_id r) (world s) \<notin> {RUNNING, FINISHING}
          then (Raise (RuntimeError ''rpc must be sent to service before queueing''), s)
          else
            (case r of
               MultiRpc m subs \<Rightarrow>
                 if length subs > 1
                 then (Return (),
                       register_rpcs subs (Some (HelpMultiRpcAlong m callback args kwds), [], [])
                         (s\<lparr>multi_done := AList.update m False (multi_done s)\<rparr>))
                 else (Return (), register_rpcs subs (map_option Fn callback, args, kwds) s)
             | UserRPC h \<Rightarrow>
                 (Return (), register_rpcs [h] (map_option Fn callback, args, kwds) s)))"

section \<open>Invoking callbacks\<close>

text \<open>A call \<^verbatim>\<open>callback(*args, **kwds)\<close> of a user callable, recorded in the trace.\<close>

definition invoke ::
  "('f, 'v, 'h, 'w) env \<Rightarrow> 'f \<Rightarrow> 'v list \<Rightarrow> (string \<times> 'v) list
     \<Rightarrow> ('f, 'v, 'h, 'w) event_loop \<Rightarrow> bool option result \<times> ('f, 'v, 'h, 'w) event_loop" where
  "invoke e f args kwds s = call e f args kwds (s\<lparr>trace := trace s @ [(f, args, kwds)]\<rparr>)"

text \<open>
  The body of the closure \<^verbatim>\<open>help_multi_rpc_along(r, c, a, k)\<close>. Reading an attribute
  that was never set raises; calling \<^verbatim>\<open>None\<close> raises.
\<close>

definition help_multi_rpc_along ::
  "('f, 'v, 'h, 'w) env \<Rightarrow> 'h \<Rightarrow> 'f option \<Rightarrow> 'v list \<Rightarrow> (string \<times> 'v) list
     \<Rightarrow> ('f, 'v, 'h, 'w) event_loop \<Rightarrow> bool option result \<times> ('f, 'v, 'h, 'w) event_loop" where
  "help_multi_rpc_along e r c a k s =
     (if rpc_state_of e r (world s) = FINISHING then
        (case map_of (multi_done s) r of
           None \<Rightarrow> (Raise (AttributeError ''__done''), s)
         | Some d \<Rightarrow>
             if \<not> d then
               (case c of
                  None \<Rightarrow>
                    (Raise (TypeError ''NoneType object is not callable''),
                     s\<lparr>multi_done := AList.update r True (multi_done s)\<rparr>)
                | Some f \<Rightarrow>
                    (case invoke e f a k (s\<lparr>multi_done := AList.update r True (multi_done s)\<rparr>) of
                       (Raise x, s') \<Rightarrow> (Raise x, s')
                     | (Return v, s') \<Rightarrow> (Return None, s')))
             else (Return None, s))
      else (Return None, s))"

text \<open>Calling what the pending-operation table stores.\<close>

definition call_callback ::
  "('f, 'v, 'h, 'w) env \<Rightarrow> ('f, 'v, 'h) callback \<Rightarrow> 'v list \<Rightarrow> (string \<times> 'v) list
     \<Rightarrow> ('f, 'v, 'h, 'w) event_loop \<Rightarrow> bool option result \<times> ('f, 'v, 'h, 'w) event_loop" where
  "call_callback e cb args kwds s =
     (case cb of
        Fn f \<Rightarrow> invoke e f args kwds s
      | HelpMultiRpcAlong r c a k \<Rightarrow> help_multi_rpc_along e r c a k s)"

section \<open>The ready queues\<close>

definition add_idle ::
  "'f \<Rightarrow> 'v list \<Rightarrow> (string \<times> 'v) list \<Rightarrow> ('f, 'v, 'h, 'w) event_loop
     \<Rightarrow> ('f, 'v, 'h, 'w) event_loop" where
  "add_idle callback args kwds s = s\<lparr>idlers := idlers s @ [(callback, args, kwds)]\<rparr>"

definition run_idle ::
  "('f, 'v, 'h, 'w) env \<Rightarrow> ('f, 'v, 'h, 'w) event_loop
     \<Rightarrow> bool result \<times> ('f, 'v, 'h, 'w) event_loop" where
  "run_idle e s =
     (if idlers s = [] \<or> inactive s \<ge> length (idlers s) then (Return False, s)
      else
        (case hd (idlers s) of (callback, args, kwds) \<Rightarrow>
           (case invoke e callback args kwds (s\<lparr>idlers := tl (idlers s)\<rparr>) of
              (Raise x, s') \<Rightarrow> (Raise x, s')
            | (Return None, s') \<Rightarrow> (Return True, s')
            | (Return (Some res), s') \<Rightarrow>
                (Return True,
                 (if res then s'\<lparr>inactive := 0\<rparr> else s'\<lparr>inactive := inactive s' + 1\<rparr>)
                   \<lparr>idlers := idlers s' @ [(callback, args, kwds)]\<rparr>))))"

section \<open>The scheduler loop\<close>

text \<open>
  The last branch of \<^verbatim>\<open>run0\<close> that does work (\<^verbatim>\<open>if self.rpcs: ...\<close>): wait for one
  pending operation and complete it.
\<close>

definition run0_rpcs ::
  "('f, 'v, 'h, 'w) env \<Rightarrow> ('f, 'v, 'h, 'w) event_loop
     \<Rightarrow> real option result \<times> ('f, 'v, 'h, 'w) event_loop" where
  "run0_rpcs e s =
     (case wait_any e (map fst (rpcs s)) (s\<lparr>inactive := 0\<rparr>) of
        (Raise x, s') \<Rightarrow> (Raise x, s')
      | (Return None, s') \<Rightarrow> (Return (Some 0), s')
      | (Return (Some rpc), s') \<Rightarrow>
          (case map_of (rpcs s') rpc of
             None \<Rightarrow> (Raise (RuntimeError ''rpc was not given to wait_any as a choice''), s')
           | Some (callback, args, kwds) \<Rightarrow>
               (case callback of
                  None \<Rightarrow> (Return (Some 0), s'\<lparr>rpcs := AList.delete rpc (rpcs s')\<rparr>)
                | Some cb \<Rightarrow>
                    (case call_callback e cb args kwds (s'\<lparr>rpcs := AList.delete rpc (rpcs s')\<rparr>) of
                       (Raise x, s'') \<Rightarrow> (Raise x, s'')
                     | (Return v, s'') \<Rightarrow> (Return (Some 0), s'')))))"

definition run0 ::
  "('f, 'v, 'h, 'w) env \<Rightarrow> ('f, 'v, 'h, 'w) event_loop
     \<Rightarrow> real option result \<times> ('f, 'v, 'h, 'w) event_loop" where
  "run0 e s =
     (if current s \<noteq> [] then
        (case hd (current s) of (callback, args, kwds) \<Rightarrow>
           (case invoke e callback args kwds (s\<lparr>inactive := 0, current := tl (current s)\<rparr>) of
              (Raise x, s') \<Rightarrow> (Raise x, s')
            | (Return v, s') \<Rightarrow> (Return (Some 0), s')))
      else
        (case run_idle e s of
           (Raise x, s1) \<Rightarrow> (Raise x, s1)
         | (Return True, s1) \<Rightarrow> (Return (Some 0), s1)
         | (Return False, s1) \<Rightarrow>
             if queue s1 \<noteq> [] \<and> fst (hd (queue s1)) - now e (world s1) \<le> 0 then
               (case hd (queue s1) of (when, callback, args, kwds) \<Rightarrow>
                  (case invoke e callback args kwds (s1\<lparr>inactive := 0, queue := tl (queue s1)\<rparr>) of
                     (Raise x, s') \<Rightarrow> (Raise x, s')
                   | (Return v, s') \<Rightarrow> (Return (Some 0), s')))
             else if rpcs s1 \<noteq> [] then run0_rpcs e s1
             else
               (Return (if queue s1 \<noteq> [] then Some (fst (hd (queue s1)) - now e (world s1))
                        else None), s1)))"

definition run1 ::
  "('f, 'v, 'h, 'w) env \<Rightarrow> ('f, 'v, 'h, 'w) event_loop
     \<Rightarrow> bool result \<times> ('f, 'v, 'h, 'w) event_loop" where
  "run1 e s =
     (case run0 e s of
        (Raise x, s') \<Rightarrow> (Raise x, s')
      | (Return None, s') \<Rightarrow> (Return False, s')
      | (Return (Some delay), s') \<Rightarrow>
          (Return True, if delay > 0 then s'\<lparr>world := sleep e delay (world s')\<rparr> else s'))"

text \<open>
  The loop \<^verbatim>\<open>while True: if not self.run1(): break\<close>. It need not end, so it is a
  partial function: \<open>None\<close> is the loop that never returns.
\<close>

partial_function (option) run_loop ::
  "('f, 'v, 'h, 'w) env \<Rightarrow> ('f, 'v, 'h, 'w) event_loop
     \<Rightarrow> (unit result \<times> ('f, 'v, 'h, 'w) event_loop) option" where
  "run_loop e s =
     (case run1 e s of
        (Raise x, s') \<Rightarrow> Some (Raise x, s')
      | (Return again, s') \<Rightarrow> if again then run_loop e s' else Some (Return (), s'))"

declare run_loop.simps [code]

definition run ::
  "('f, 'v, 'h, 'w) env \<Rightarrow> ('f, 'v, 'h, 'w) event_loop
     \<Rightarrow> (unit result \<times> ('f, 'v, 'h, 'w) event_loop) option" where
  "run e s = run_loop e (s\<lparr>inactive := 0\<rparr>)"

section \<open>Vocabulary of the statements\<close>

text \<open>The loop as \<^verbatim>\<open>__init__\<close> leaves it, in a given world.\<close>

definition new_loop :: "'w \<Rightarrow> ('f, 'v, 'h, 'w) event_loop" where
  "new_loop w =
     \<lparr>current = [], idlers = [], inactive = 0, queue = [], rpcs = [],
      multi_done = [], trace = [], world = w\<rparr>"

definition invoke_item ::
  "('f, 'v, 'h, 'w) env \<Rightarrow> ('f, 'v) item \<Rightarrow> ('f, 'v, 'h, 'w) event_loop
     \<Rightarrow> bool option result \<times> ('f, 'v, 'h, 'w) event_loop" where
  "invoke_item e item s = (case item of (f, args, kwds) \<Rightarrow> invoke e f args kwds s)"

text \<open>A step that, unless it raised, ends in \<^verbatim>\<open>return 0\<close>.\<close>

definition then_zero :: "'a result \<times> 's \<Rightarrow> real option result \<times> 's" where
  "then_zero p = (case p of (Raise x, s) \<Rightarrow> (Raise x, s) | (Return v, s) \<Rightarrow> (Return (Some 0), s))"

text \<open>An idle callback is runnable; the earliest timer deadline has passed.\<close>

definition idle_runnable :: "('f, 'v, 'h, 'w) event_loop \<Rightarrow> bool" where
  "idle_runnable s \<longleftrightarrow> inactive s < length (idlers s)"

definition timer_due :: "('f, 'v, 'h, 'w) env \<Rightarrow> ('f, 'v, 'h, 'w) event_loop \<Rightarrow> bool" where
  "timer_due e s \<longleftrightarrow> queue s \<noteq> [] \<and> fst (hd (queue s)) \<le> now e (world s)"

text \<open>
  Nothing is left that a step would do: the immediate queue, the timer queue and the
  pending-operation table are empty and no idle callback is runnable.
\<close>

definition quiescent :: "('f, 'v, 'h, 'w) event_loop \<Rightarrow> bool" where
  "quiescent s \<longleftrightarrow> current s = [] \<and> \<not> idle_runnable s \<and> queue s = [] \<and> rpcs s = []"

text \<open>The loop after \<open>n\<close> calls of \<^verbatim>\<open>run1\<close> that all reported work.\<close>

fun run1_iter ::
  "('f, 'v, 'h, 'w) env \<Rightarrow> nat \<Rightarrow> ('f, 'v, 'h, 'w) event_loop
     \<Rightarrow> ('f, 'v, 'h, 'w) event_loop option" where
  "run1_iter e 0 s = Some s"
| "run1_iter e (Suc n) s =
     (case run1 e s of
        (Raise x, s') \<Rightarrow> None
      | (Return again, s') \<Rightarrow> if again then run1_iter e n s' else None)"

text \<open>
  Assumptions on user callables: one that returns and touches nothing of the loop
  (only the world), and one that moreover reports "no work" (\<^verbatim>\<open>False\<close>).
\<close>

definition touches_only_world ::
  "('f, 'v, 'h, 'w) env \<Rightarrow> 'f \<Rightarrow> 'v list \<Rightarrow> (string \<times> 'v) list \<Rightarrow> bool" where
  "touches_only_world e f args kwds \<longleftrightarrow>
     (\<forall>s. \<exists>r w. call e f args kwds s = (Return r, s\<lparr>world := w\<rparr>))"

definition reports_no_work ::
  "('f, 'v, 'h, 'w) env \<Rightarrow> 'f \<Rightarrow> 'v list \<Rightarrow> (string \<times> 'v) list \<Rightarrow> bool" where
  "reports_no_work e f args kwds \<longleftrightarrow>
     (\<forall>s. \<exists>w. call e f args kwds s = (Return (Some False), s\<lparr>world := w\<rparr>))"

text \<open>The trace is the observer's: neither user callables nor \<^verbatim>\<open>wait_any\<close> write to it.\<close>

definition keeps_trace :: "('f, 'v, 'h, 'w) env \<Rightarrow> bool" where
  "keeps_trace e \<longleftrightarrow>
     (\<forall>f args kwds s. trace (snd (call e f args kwds s)) = trace s)
     \<and> (\<forall>hs s. trace (snd (wait_any e hs s)) = trace s)"

text \<open>A clock whose \<^verbatim>\<open>sleep(d)\<close> lets at least \<open>d\<close> seconds pass.\<close>

definition clock_sleeps :: "('f, 'v, 'h, 'w) env \<Rightarrow> bool" where
  "clock_sleeps e \<longleftrightarrow> (\<forall>d w. 0 < d \<longrightarrow> now e w + d \<le> now e (sleep e d w))"

text \<open>The deadline \<^verbatim>\<open>queue_call\<close> computes from its \<^verbatim>\<open>delay\<close> argument.\<close>

definition deadline :: "('f, 'v, 'h, 'w) env \<Rightarrow> 'w \<Rightarrow> real \<Rightarrow> real" where
  "deadline e w d = (if d < 1000000000 then d + now e w else d)"

text \<open>
  The event \<^verbatim>\<open>queue_call\<close> makes of its arguments in the world \<open>w\<close>, and the place the
  specification gives an event in a sorted timer queue: to the right of every event
  with an equal or smaller deadline.
\<close>

definition event_of ::
  "('f, 'v, 'h, 'w) env \<Rightarrow> 'w \<Rightarrow> ('f, 'v) event \<Rightarrow> ('f, 'v) event" where
  "event_of e w c = (case c of (d, item) \<Rightarrow> (deadline e w d, item))"

definition insert_right :: "('f, 'v) event \<Rightarrow> ('f, 'v) event list \<Rightarrow> ('f, 'v) event list" where
  "insert_right ev q = filter (\<lambda>x. fst x \<le> fst ev) q @ ev # filter (\<lambda>x. fst ev < fst x) q"

definition queue_sorted :: "('f, 'v, 'h, 'w) event_loop \<Rightarrow> bool" where
  "queue_sorted s \<longleftrightarrow> sorted (map fst (queue s))"

text \<open>User code that leaves a sorted timer queue sorted (as code does that only calls
  the loop's own operations).\<close>

definition keeps_sorted :: "('f, 'v, 'h, 'w) env \<Rightarrow> bool" where
  "keeps_sorted e \<longleftrightarrow>
     (\<forall>f args kwds s. queue_sorted s \<longrightarrow> queue_sorted (snd (call e f args kwds s)))
     \<and> (\<forall>hs s. queue_sorted s \<longrightarrow> queue_sorted (snd (wait_any e hs s)))"

text \<open>A sequence of calls \<^verbatim>\<open>queue_call(delay, callback, *args, **kwds)\<close>.\<close>

fun queue_calls ::
  "('f, 'v, 'h, 'w) env \<Rightarrow> ('f, 'v) event list \<Rightarrow> ('f, 'v, 'h, 'w) event_loop
     \<Rightarrow> ('f, 'v, 'h, 'w) event_loop" where
  "queue_calls e [] s = s"
| "queue_calls e ((d, f, args, kwds) # cs) s =
     queue_calls e cs (snd (queue_call e (Some d) f args kwds s))"

section \<open>Concrete environments\<close>

text \<open>
  An environment whose world is the clock's time: a callable \<open>f\<close> does \<open>ret f\<close> and
  touches nothing, an RPC \<open>h\<close> is in state \<open>st h\<close>, and \<^verbatim>\<open>wait_any\<close> answers \<open>wa\<close> of the
  keys it is given.
\<close>

definition plain_env ::
  "('f \<Rightarrow> bool option result) \<Rightarrow> ('h \<Rightarrow> rpc_state) \<Rightarrow> ('h list \<Rightarrow> 'h option)
     \<Rightarrow> ('f, 'v, 'h, real) env" where
  "plain_env ret st wa =
     \<lparr>call = (\<lambda>f args kwds s. (ret f, s)),
      now = (\<lambda>w. w),
      sleep = (\<lambda>d w. w + d),
      rpc_state_of = (\<lambda>h w. st h),
      wait_any = (\<lambda>hs s. (Return (wa hs), s))\<rparr>"

text \<open>
  An environment that replays a script of completions: the world is the remaining
  script and the state every RPC object shows; each \<^verbatim>\<open>wait_any\<close> returns the next
  handle of the script and moves the shown state to the one the script gives.
\<close>

definition script_env :: "('f, 'v, 'h, ('h \<times> rpc_state) list \<times> rpc_state) env" where
  "script_env =
     \<lparr>call = (\<lambda>f args kwds s. (Return None, s)),
      now = (\<lambda>w. 0),
      sleep = (\<lambda>d w. w),
      rpc_state_of = (\<lambda>h w. snd w),
      wait_any = (\<lambda>hs s.
        (case fst (world s) of
           [] \<Rightarrow> (Return None, s)
         | (h, st) # rest \<Rightarrow> (Return (Some h), s\<lparr>world := (rest, st)\<rparr>)))\<rparr>"

text \<open>
  The loop while the sub-operations \<open>ks\<close> of the MultiRpc \<open>m\<close> are pending, each under the
  closure that guards the callback \<open>c\<close>, and nothing else is queued; \<open>d\<close> is the flag
  \<^verbatim>\<open>__done\<close> of \<open>m\<close>.
\<close>

definition fanin_loop ::
  "'h \<Rightarrow> 'f \<Rightarrow> 'v list \<Rightarrow> (string \<times> 'v) list \<Rightarrow> 'h list \<Rightarrow> bool \<Rightarrow> ('f, 'v) item list \<Rightarrow> 'w
     \<Rightarrow> ('f, 'v, 'h, 'w) event_loop" where
  "fanin_loop m c a k ks d tr w =
     \<lparr>current = [], idlers = [], inactive = 0, queue = [],
      rpcs = map (\<lambda>h. (h, Some (HelpMultiRpcAlong m (Some c) a k), [], [])) ks,
      multi_done = [(m, d)], trace = tr, world = w\<rparr>"

text \<open>
  An environment where every callable raises, one where every callable reports
  "no work", one where no RPC has been sent yet, and one whose \<^verbatim>\<open>wait_any\<close> returns
  a handle (99) nobody registered.
\<close>

definition raising_env :: "(nat, nat, nat, real) env" where
  "raising_env = plain_env (\<lambda>f. Raise (CallbackError ''boom'')) (\<lambda>h. RUNNING) (\<lambda>hs. None)"

definition lazy_env :: "(nat, nat, nat, real) env" where
  "lazy_env = plain_env (\<lambda>f. Return (Some False)) (\<lambda>h. RUNNING) (\<lambda>hs. None)"

definition unsent_env :: "(nat, nat, nat, real) env" where
  "unsent_env = plain_env (\<lambda>f. Return None) (\<lambda>h. IDLE) (\<lambda>hs. None)"

definition stray_env :: "(nat, nat, nat, real) env" where
  "stray_env = plain_env (\<lambda>f. Return None) (\<lambda>h. RUNNING) (\<lambda>hs. Some 99)"

text \<open>
  An environment whose \<^verbatim>\<open>wait_any\<close> returns the first key of the table it is given;
  every callable returns \<^verbatim>\<open>None\<close> and every RPC is finishing.
\<close>

definition first_env :: "(nat, nat, nat, real) env" where
  "first_env =
     plain_env (\<lambda>f. Return None) (\<lambda>h. FINISHING) (\<lambda>hs. case hs of [] \<Rightarrow> None | h # rest \<Rightarrow> Some h)"

text \<open>
  A quiet environment: every callable returns \<^verbatim>\<open>None\<close>, every RPC is running and
  \<^verbatim>\<open>wait_any\<close> comes back empty-handed.
\<close>

definition quiet_env :: "(nat, nat, nat, real) env" where
  "quiet_env = plain_env (\<lambda>f. Return None) (\<lambda>h. RUNNING) (\<lambda>hs. None)"

section \<open>Basic facts\<close>

declare insort_event_right_loop.simps [simp del]

lemma same_but_world: "\<exists>w. s = s\<lparr>world := w\<rparr>"
  by (rule exI[of _ "world s"]) simp

lemma then_zero_snd: "snd (then_zero p) = snd p"
  by (cases p) (simp add: then_zero_def split: result.splits)

lemma getitem_in_range:
  "0 \<le> i \<Longrightarrow> i < int (length xs) \<Longrightarrow> getitem xs i = Some (xs ! nat i)"
  by (simp add: getitem_def)

lemma list_insert_nat:
  "0 \<le> p \<Longrightarrow> p \<le> int (length xs) \<Longrightarrow>
     list_insert p x xs = take (nat p) xs @ x # drop (nat p) xs"
  by (simp add: list_insert_def Let_def min_def)

subsection \<open>The search loop returns a position within its bounds\<close>

lemma loop_returns:
  "0 \<le> lo \<Longrightarrow> lo \<le> hi \<Longrightarrow> hi \<le> int (length q) \<Longrightarrow>
     \<exists>p. insort_event_right_loop t q lo hi = Return p \<and> lo \<le> p \<and> p \<le> hi"
proof (induction t q lo hi rule: insort_event_right_loop.induct)
  case (1 t q lo hi)
  show ?case
  proof (cases "lo < hi")
    case False
    with "1.prems" show ?thesis
      by (subst insort_event_right_loop.simps) simp
  next
    case True
    define mid where "mid = (lo + hi) div 2"
    have mid: "lo \<le> mid" "mid < hi" using True by (auto simp: mid_def)
    then have g: "getitem q mid = Some (q ! nat mid)"
      using "1.prems" by (intro getitem_in_range) auto
    show ?thesis
    proof (cases "t < fst (q ! nat mid)")
      case less: True
      from "1.IH"(1)[OF True g[unfolded mid_def] less[unfolded mid_def]] "1.prems" mid
      obtain p where "insort_event_right_loop t q lo mid = Return p" "lo \<le> p" "p \<le> mid"
        unfolding mid_def by auto
      then show ?thesis using True g less mid
        by (subst insort_event_right_loop.simps) (auto simp: mid_def)
    next
      case ge: False
      from "1.IH"(2)[OF True g[unfolded mid_def] ge[unfolded mid_def]] "1.prems" mid
      obtain p where "insort_event_right_loop t q (mid + 1) hi = Return p"
        "mid + 1 \<le> p" "p \<le> hi"
        unfolding mid_def by auto
      then show ?thesis using True g ge mid
        by (subst insort_event_right_loop.simps) (auto simp: mid_def)
    qed
  qed
qed

lemma insort_default_returns:
  "\<exists>p \<le> length (queue s). insort_event_right ev 0 None s
      = (Return (), s\<lparr>queue := take p (queue s) @ ev # drop p (queue s)\<rparr>)"
proof -
  obtain p where p:
    "insort_event_right_loop (fst ev) (queue s) 0 (int (length (queue s))) = Return p"
    "0 \<le> p" "p \<le> int (length (queue s))"
    using loop_returns[of 0 "int (length (queue s))" "queue s" "fst ev"] by auto
  then have "insort_event_right ev 0 None s
      = (Return (), s\<lparr>queue := take (nat p) (queue s) @ ev # drop (nat p) (queue s)\<rparr>)"
    by (simp add: insort_event_right_def list_insert_nat)
  moreover have "nat p \<le> length (queue s)" using p by auto
  ultimately show ?thesis by blast
qed

subsection \<open>The branches of a step\<close>

lemma run_idle_not_runnable:
  "\<not> idle_runnable s \<Longrightarrow> run_idle e s = (Return False, s)"
  by (auto simp: run_idle_def idle_runnable_def)

lemma run_idle_runnable:
  "idle_runnable s \<Longrightarrow> fst (run_idle e s) \<noteq> Return False"
  by (auto simp: run_idle_def idle_runnable_def split: prod.splits result.splits option.splits)

lemma run0_current:
  "current s \<noteq> [] \<Longrightarrow>
     run0 e s = then_zero (invoke_item e (hd (current s))
                             (s\<lparr>inactive := 0, current := tl (current s)\<rparr>))"
  by (simp add: run0_def then_zero_def invoke_item_def split: prod.splits result.splits)

lemma run0_idle:
  "current s = [] \<Longrightarrow> idle_runnable s \<Longrightarrow> run0 e s = then_zero (run_idle e s)"
  using run_idle_runnable[of s e]
  by (cases "run_idle e s") (auto simp: run0_def then_zero_def split: result.splits bool.splits)

lemma run0_timer:
  "current s = [] \<Longrightarrow> \<not> idle_runnable s \<Longrightarrow> timer_due e s \<Longrightarrow>
     run0 e s = then_zero (invoke_item e (snd (hd (queue s)))
                             (s\<lparr>inactive := 0, queue := tl (queue s)\<rparr>))"
  by (simp add: run0_def run_idle_not_runnable timer_due_def then_zero_def invoke_item_def
           split: prod.splits result.splits)

lemma run0_rpcs_then_zero: "then_zero (run0_rpcs e s) = run0_rpcs e s"
  by (simp add: run0_rpcs_def then_zero_def split: prod.splits result.splits option.splits)

lemma run0_pending:
  "current s = [] \<Longrightarrow> \<not> idle_runnable s \<Longrightarrow> \<not> timer_due e s \<Longrightarrow> rpcs s \<noteq> [] \<Longrightarrow>
     run0 e s = run0_rpcs e s"
  by (auto simp: run0_def run_idle_not_runnable timer_due_def)

lemma run0_nothing_due:
  "current s = [] \<Longrightarrow> \<not> idle_runnable s \<Longrightarrow> \<not> timer_due e s \<Longrightarrow> rpcs s = [] \<Longrightarrow>
     run0 e s = (Return (if queue s \<noteq> [] then Some (fst (hd (queue s)) - now e (world s))
                         else None), s)"
  by (auto simp: run0_def run_idle_not_runnable timer_due_def)

subsection \<open>A step invokes at most one user callable\<close>

lemma invoke_trace:
  "keeps_trace e \<Longrightarrow> trace (snd (invoke e f a k s)) = trace s @ [(f, a, k)]"
  by (simp add: invoke_def keeps_trace_def)

lemma invoke_item_trace:
  "keeps_trace e \<Longrightarrow> trace (snd (invoke_item e item s)) = trace s @ [item]"
  by (cases item) (simp add: invoke_item_def invoke_trace)

lemma help_multi_rpc_along_trace:
  assumes "keeps_trace e"
  shows "length (trace (snd (help_multi_rpc_along e r c a k s))) \<le> Suc (length (trace s))"
proof -
  have "trace (snd (invoke e f a k (s\<lparr>multi_done := d\<rparr>))) = trace s @ [(f, a, k)]" for f d
    using invoke_trace[OF assms, of f a k "s\<lparr>multi_done := d\<rparr>"] by simp
  then show ?thesis
    by (auto simp: help_multi_rpc_along_def split: option.splits prod.splits result.splits
             dest!: arg_cong[where f=snd])
qed

lemma run_idle_trace:
  assumes "keeps_trace e"
  shows "length (trace (snd (run_idle e s))) \<le> Suc (length (trace s))"
proof (cases "idle_runnable s")
  case False
  then show ?thesis by (simp add: run_idle_not_runnable)
next
  case True
  obtain f a k where hd: "hd (idlers s) = (f, a, k)" by (cases "hd (idlers s)") auto
  have "trace (snd (invoke e f a k (s\<lparr>idlers := tl (idlers s)\<rparr>))) = trace s @ [(f, a, k)]"
    using invoke_trace[OF assms, of f a k "s\<lparr>idlers := tl (idlers s)\<rparr>"] by simp
  then show ?thesis using True hd
    by (cases "invoke e f a k (s\<lparr>idlers := tl (idlers s)\<rparr>)")
       (auto simp: run_idle_def idle_runnable_def split: option.splits result.splits)
qed

lemma call_callback_trace:
  assumes "keeps_trace e"
  shows "length (trace (snd (call_callback e cb a k s))) \<le> Suc (length (trace s))"
  using help_multi_rpc_along_trace[OF assms] invoke_trace[OF assms]
  by (cases cb) (simp_all add: call_callback_def)

lemma run0_rpcs_trace:
  assumes "keeps_trace e"
  shows "length (trace (snd (run0_rpcs e s))) \<le> Suc (length (trace s))"
proof -
  obtain r s' where w: "wait_any e (map fst (rpcs s)) (s\<lparr>inactive := 0\<rparr>) = (r, s')"
    by (cases "wait_any e (map fst (rpcs s)) (s\<lparr>inactive := 0\<rparr>)") auto
  have "trace (snd (wait_any e (map fst (rpcs s)) (s\<lparr>inactive := 0\<rparr>)))
          = trace (s\<lparr>inactive := 0\<rparr>)"
    using assms unfolding keeps_trace_def by blast
  then have tr: "trace s' = trace s"
    by (simp add: w)
  have cc: "length (trace (snd (call_callback e cb a k (s'\<lparr>rpcs := d\<rparr>))))
              \<le> Suc (length (trace s))" for cb a k d
    using call_callback_trace[OF assms, of cb a k "s'\<lparr>rpcs := d\<rparr>"] tr by simp
  show ?thesis
    using w tr cc
    by (auto simp: run0_rpcs_def split: option.splits result.splits prod.splits
             dest!: arg_cong[where f=snd])
qed

lemma run0_trace:
  assumes "keeps_trace e"
  shows "length (trace (snd (run0 e s))) \<le> Suc (length (trace s))"
proof (cases "current s \<noteq> []")
  case True
  then show ?thesis
    using invoke_item_trace[OF assms, of "hd (current s)"
            "s\<lparr>inactive := 0, current := tl (current s)\<rparr>"]
    by (simp add: run0_current then_zero_snd)
next
  case cur: False
  show ?thesis
  proof (cases "idle_runnable s")
    case True
    then show ?thesis using cur run_idle_trace[OF assms, of s]
      by (simp add: run0_idle then_zero_snd)
  next
    case idle: False
    show ?thesis
    proof (cases "timer_due e s")
      case True
      then show ?thesis
        using cur idle
          invoke_item_trace[OF assms, of "snd (hd (queue s))"
            "s\<lparr>inactive := 0, queue := tl (queue s)\<rparr>"]
        by (simp add: run0_timer then_zero_snd)
    next
      case due: False
      show ?thesis
      proof (cases "rpcs s = []")
        case True
        then show ?thesis using cur idle due by (simp add: run0_nothing_due)
      next
        case False
        then show ?thesis using cur idle due run0_rpcs_trace[OF assms, of s]
          by (simp add: run0_pending)
      qed
    qed
  qed
qed

lemma keeps_trace_plain_env: "keeps_trace (plain_env ret st wa)"
  by (simp add: keeps_trace_def plain_env_def)

subsection \<open>The branches of a step, in terms of the environment\<close>

lemma run0_immediate_direct:
  "current s = (f, a, k) # rest \<Longrightarrow>
     run0 e s = then_zero (call e f a k
        (s\<lparr>inactive := 0, current := rest, trace := trace s @ [(f, a, k)]\<rparr>))"
  by (simp add: run0_current invoke_item_def invoke_def)

lemma run0_idle_direct:
  assumes "current s = []" "idlers s = (f, a, k) # rest" "inactive s < length (idlers s)"
  shows "run0 e s =
     (case call e f a k (s\<lparr>idlers := rest, trace := trace s @ [(f, a, k)]\<rparr>) of
        (Raise x, s') \<Rightarrow> (Raise x, s')
      | (Return None, s') \<Rightarrow> (Return (Some 0), s')
      | (Return (Some res), s') \<Rightarrow>
          (Return (Some 0),
           (if res then s'\<lparr>inactive := 0\<rparr> else s'\<lparr>inactive := inactive s' + 1\<rparr>)
             \<lparr>idlers := idlers s' @ [(f, a, k)]\<rparr>))"
proof -
  have "idle_runnable s" using assms(3) by (simp add: idle_runnable_def)
  from run0_idle[OF assms(1) this, of e] show ?thesis
    using assms(2,3)
    by (simp add: run_idle_def invoke_def then_zero_def
          split: prod.splits result.splits option.splits)
qed

lemma run0_timer_direct:
  assumes "current s = []" "length (idlers s) \<le> inactive s"
    "queue s = (t, f, a, k) # rest" "t \<le> now e (world s)"
  shows "run0 e s = then_zero (call e f a k
        (s\<lparr>inactive := 0, queue := rest, trace := trace s @ [(f, a, k)]\<rparr>))"
proof -
  have "\<not> idle_runnable s" "timer_due e s"
    using assms by (simp_all add: idle_runnable_def timer_due_def)
  from run0_timer[OF assms(1) this] show ?thesis
    using assms(3) by (simp add: invoke_item_def invoke_def)
qed

lemma run0_pending_direct:
  assumes "current s = []" "length (idlers s) \<le> inactive s" "\<not> timer_due e s" "rpcs s \<noteq> []"
  shows "run0 e s =
     (case wait_any e (map fst (rpcs s)) (s\<lparr>inactive := 0\<rparr>) of
        (Raise x, s') \<Rightarrow> (Raise x, s')
      | (Return None, s') \<Rightarrow> (Return (Some 0), s')
      | (Return (Some h), s') \<Rightarrow>
          (case map_of (rpcs s') h of
             None \<Rightarrow> (Raise (RuntimeError ''rpc was not given to wait_any as a choice''), s')
           | Some (None, args, kwds) \<Rightarrow>
               (Return (Some 0), s'\<lparr>rpcs := AList.delete h (rpcs s')\<rparr>)
           | Some (Some (Fn g), args, kwds) \<Rightarrow>
               then_zero (call e g args kwds
                 (s'\<lparr>rpcs := AList.delete h (rpcs s'), trace := trace s' @ [(g, args, kwds)]\<rparr>))
           | Some (Some (HelpMultiRpcAlong r c ca ck), args, kwds) \<Rightarrow>
               then_zero (help_multi_rpc_along e r c ca ck
                 (s'\<lparr>rpcs := AList.delete h (rpcs s')\<rparr>))))"
proof -
  have "\<not> idle_runnable s" using assms(2) by (simp add: idle_runnable_def)
  from run0_pending[OF assms(1) this assms(3,4)] show ?thesis
    by (simp add: run0_rpcs_def call_callback_def invoke_def then_zero_def
          split: prod.splits result.splits option.splits callback.splits)
qed

lemma run0_wait_direct:
  assumes "current s = []" "length (idlers s) \<le> inactive s" "\<not> timer_due e s" "rpcs s = []"
    "queue s \<noteq> []"
  shows "run0 e s = (Return (Some (fst (hd (queue s)) - now e (world s))), s)"
proof -
  have "\<not> idle_runnable s" using assms(2) by (simp add: idle_runnable_def)
  from run0_nothing_due[OF assms(1) this assms(3,4)] assms(5) show ?thesis by simp
qed

lemma run0_drained_direct:
  assumes "current s = []" "length (idlers s) \<le> inactive s" "queue s = []" "rpcs s = []"
  shows "run0 e s = (Return None, s)"
proof -
  have "\<not> idle_runnable s" "\<not> timer_due e s"
    using assms by (simp_all add: idle_runnable_def timer_due_def)
  from run0_nothing_due[OF assms(1) this assms(4)] assms(3) show ?thesis by simp
qed

subsection \<open>Unfolding the drain loop\<close>

lemma run_loop_raise: "run1 e s = (Raise x, s') \<Longrightarrow> run_loop e s = Some (Raise x, s')"
  by (subst run_loop.simps) simp

lemma run_loop_stop: "run1 e s = (Return False, s') \<Longrightarrow> run_loop e s = Some (Return (), s')"
  by (subst run_loop.simps) simp

lemma run_loop_step: "run1 e s = (Return True, s') \<Longrightarrow> run_loop e s = run_loop e s'"
  by (subst run_loop.simps) simp

lemma run1_quiescent: "quiescent s \<Longrightarrow> run1 e s = (Return False, s)"
  by (simp add: quiescent_def run1_def run0_nothing_due timer_due_def)

lemma run1_idle_no_work:
  assumes "current s = []" "idlers s = (f, a, k) # rest" "inactive s < length (idlers s)"
    and "reports_no_work e f a k"
  shows "\<exists>w. run1 e s = (Return True,
           s\<lparr>idlers := rest @ [(f, a, k)], inactive := inactive s + 1,
             trace := trace s @ [(f, a, k)], world := w\<rparr>)"
proof -
  from assms(4) have
    "\<exists>w. call e f a k (s\<lparr>idlers := rest, trace := trace s @ [(f, a, k)]\<rparr>)
       = (Return (Some False), s\<lparr>idlers := rest, trace := trace s @ [(f, a, k)], world := w\<rparr>)"
    unfolding reports_no_work_def by (rule spec)
  then obtain w where
    "call e f a k (s\<lparr>idlers := rest, trace := trace s @ [(f, a, k)]\<rparr>)
       = (Return (Some False), s\<lparr>idlers := rest, trace := trace s @ [(f, a, k)], world := w\<rparr>)"
    by blast
  then have "run1 e s = (Return True,
           s\<lparr>idlers := rest @ [(f, a, k)], inactive := inactive s + 1,
             trace := trace s @ [(f, a, k)], world := w\<rparr>)"
    using assms(1-3) by (simp add: run1_def run0_def run_idle_def invoke_def)
  then show ?thesis by blast
qed

lemma idle_round:
  assumes "\<And>f a k. (f, a, k) \<in> set ys \<Longrightarrow> reports_no_work e f a k"
    and "current s = []" "queue s = []" "rpcs s = []"
    and "idlers s = ys @ xs" "inactive s = length xs"
  shows "\<exists>w. run_loop e s = Some (Return (),
           s\<lparr>idlers := xs @ ys, inactive := length xs + length ys,
             trace := trace s @ ys, world := w\<rparr>)"
  using assms
proof (induction ys arbitrary: xs s)
  case Nil
  then have "quiescent s" by (simp add: quiescent_def idle_runnable_def)
  then have "run_loop e s = Some (Return (), s)"
    by (intro run_loop_stop run1_quiescent)
  moreover have "s = s\<lparr>idlers := xs @ [], inactive := length xs + length [],
             trace := trace s @ [], world := world s\<rparr>"
    using Nil by simp
  ultimately show ?case by metis
next
  case (Cons y ys)
  obtain f a k where y: "y = (f, a, k)" by (cases y) auto
  have nw: "reports_no_work e f a k" using Cons.prems(1) y by simp
  from run1_idle_no_work[OF Cons.prems(2) _ _ nw, of "ys @ xs"] Cons.prems y
  obtain w1 where step: "run1 e s = (Return True,
      s\<lparr>idlers := (ys @ xs) @ [y], inactive := inactive s + 1,
        trace := trace s @ [y], world := w1\<rparr>)"
    by auto
  define s1 where "s1 = s\<lparr>idlers := (ys @ xs) @ [y], inactive := inactive s + 1,
        trace := trace s @ [y], world := w1\<rparr>"
  have "\<exists>w. run_loop e s1 = Some (Return (),
           s1\<lparr>idlers := (xs @ [y]) @ ys, inactive := length (xs @ [y]) + length ys,
             trace := trace s1 @ ys, world := w\<rparr>)"
    using Cons.prems by (intro Cons.IH) (simp_all add: s1_def)
  then obtain w where "run_loop e s1 = Some (Return (),
           s1\<lparr>idlers := (xs @ [y]) @ ys, inactive := length (xs @ [y]) + length ys,
             trace := trace s1 @ ys, world := w\<rparr>)" by blast
  then have "run_loop e s = Some (Return (),
           s\<lparr>idlers := xs @ y # ys, inactive := length xs + length (y # ys),
             trace := trace s @ y # ys, world := w\<rparr>)"
    using run_loop_step[OF step[folded s1_def]] by (simp add: s1_def)
  then show ?case by blast
qed

subsection \<open>When the drain loop returns\<close>

lemma then_zero_not_None: "fst (then_zero p) \<noteq> Return None"
  by (cases p) (simp add: then_zero_def split: result.splits)

lemma run0_None_quiescent:
  assumes "run0 e s = (Return None, s')"
  shows "s' = s \<and> quiescent s"
proof -
  have nz: "run0 e s \<noteq> then_zero p" for p :: "'x result \<times> ('a, 'b, 'c, 'd) event_loop"
  proof
    assume "run0 e s = then_zero p"
    then have "fst (then_zero p) = Return None" using assms by (metis fst_conv)
    then show False using then_zero_not_None[of p] by simp
  qed
  have c: "current s = []" using run0_current[of s e] nz by blast
  have i: "\<not> idle_runnable s" using run0_idle[OF c, of e] nz by blast
  have t: "\<not> timer_due e s" using run0_timer[OF c i, of e] nz by blast
  have r: "rpcs s = []" using run0_pending[OF c i t] run0_rpcs_then_zero[of e s] nz[of "run0_rpcs e s"] by auto
  from run0_nothing_due[OF c i t r] assms have "queue s = []" "s' = s"
    by (auto split: if_splits)
  then show ?thesis using c i r by (simp add: quiescent_def)
qed

lemma run1_False_quiescent:
  assumes "run1 e s = (Return False, s')"
  shows "s' = s \<and> quiescent s"
proof -
  from assms have "run0 e s = (Return None, s')"
    by (auto simp: run1_def split: prod.splits result.splits option.splits)
  then show ?thesis by (rule run0_None_quiescent)
qed

lemma run_loop_reaches:
  "run1_iter e n s = Some s' \<Longrightarrow> quiescent s' \<Longrightarrow> run_loop e s = Some (Return (), s')"
proof (induction n arbitrary: s)
  case 0
  then show ?case by (simp add: run_loop_stop run1_quiescent)
next
  case (Suc n)
  from Suc.prems(1) obtain s1 where "run1 e s = (Return True, s1)" "run1_iter e n s1 = Some s'"
    by (auto split: prod.splits result.splits if_splits)
  then show ?case using Suc.IH[OF _ Suc.prems(2)] by (simp add: run_loop_step)
qed

lemma run_loop_returned_all:
  assumes "run_loop e s = Some y"
  shows "\<forall>s'. y = (Return (), s') \<longrightarrow> (\<exists>n. run1_iter e n s = Some s' \<and> quiescent s')"
proof -
  let ?P = "\<lambda>e s y. \<forall>s'. y = (Return (), s') \<longrightarrow>
              (\<exists>n. run1_iter e n s = Some s' \<and> quiescent s')"
  have step: "?P e s y"
    if IH: "\<And>e s y. rl e s = Some y \<Longrightarrow> ?P e s y"
      and eq: "(case run1 e s of (Raise x, s') \<Rightarrow> Some (Raise x, s')
                | (Return again, s') \<Rightarrow> if again then rl e s' else Some (Return (), s'))
               = Some y"
    for rl e s y
  proof (intro allI impI)
    fix s'
    assume y: "y = (Return (), s')"
    obtain r s1 where r1: "run1 e s = (r, s1)" by (cases "run1 e s") auto
    show "\<exists>n. run1_iter e n s = Some s' \<and> quiescent s'"
    proof (cases r)
      case (Raise x)
      with eq r1 y show ?thesis by simp
    next
      case (Return again)
      show ?thesis
      proof (cases again)
        case False
        with eq r1 Return y have "s' = s1" by simp
        moreover have "s1 = s \<and> quiescent s"
          using r1 Return False by (intro run1_False_quiescent) simp
        ultimately have "run1_iter e 0 s = Some s' \<and> quiescent s'" by simp
        then show ?thesis by blast
      next
        case True
        with eq r1 Return have "rl e s1 = Some y" by simp
        from IH[OF this] y obtain n where "run1_iter e n s1 = Some s'" "quiescent s'"
          by blast
        then have "run1_iter e (Suc n) s = Some s' \<and> quiescent s'"
          using r1 Return True by simp
        then show ?thesis by blast
      qed
    qed
  qed
  show ?thesis
    by (rule run_loop.raw_induct[where P = ?P, OF _ assms]) (rule step)
qed

lemma run_loop_returned:
  "run_loop e s = Some (Return (), s') \<Longrightarrow> \<exists>n. run1_iter e n s = Some s' \<and> quiescent s'"
  using run_loop_returned_all by blast

subsection \<open>Where the search loop puts an event in a sorted queue\<close>

lemma loop_position:
  "sorted (map fst q) \<Longrightarrow> 0 \<le> lo \<Longrightarrow> lo \<le> hi \<Longrightarrow> hi \<le> int (length q) \<Longrightarrow>
     (\<forall>i < nat lo. fst (q ! i) \<le> t) \<Longrightarrow>
     (\<forall>i. nat hi \<le> i \<and> i < length q \<longrightarrow> t < fst (q ! i)) \<Longrightarrow>
     \<exists>p. insort_event_right_loop t q lo hi = Return p \<and> 0 \<le> p \<and> p \<le> int (length q)
        \<and> (\<forall>i < nat p. fst (q ! i) \<le> t)
        \<and> (\<forall>i. nat p \<le> i \<and> i < length q \<longrightarrow> t < fst (q ! i))"
proof (induction t q lo hi rule: insort_event_right_loop.induct)
  case (1 t q lo hi)
  note srt = "1.prems"(1) and lo0 = "1.prems"(2) and lohi = "1.prems"(3)
    and hilen = "1.prems"(4) and left = "1.prems"(5) and right = "1.prems"(6)
  have mono: "fst (q ! i) \<le> fst (q ! j)" if "i \<le> j" "j < length q" for i j
    using sorted_nth_mono[OF srt, of i j] that by simp
  show ?case
  proof (cases "lo < hi")
    case False
    then have "insort_event_right_loop t q lo hi = Return lo"
      by (subst insort_event_right_loop.simps) simp
    moreover have "lo = hi" using False lohi by simp
    ultimately show ?thesis using lo0 hilen left right by auto
  next
    case True
    define mid where "mid = (lo + hi) div 2"
    have mid: "lo \<le> mid" "mid < hi" using True by (auto simp: mid_def)
    then have midlen: "nat mid < length q" and mid0: "0 \<le> mid" using lo0 hilen by auto
    have g: "getitem q mid = Some (q ! nat mid)"
      using mid0 midlen by (intro getitem_in_range) auto
    show ?thesis
    proof (cases "t < fst (q ! nat mid)")
      case less: True
      have right': "\<forall>i. nat mid \<le> i \<and> i < length q \<longrightarrow> t < fst (q ! i)"
        using less mono by (meson less_le_trans)
      have "\<exists>p. insort_event_right_loop t q lo mid = Return p \<and> 0 \<le> p \<and> p \<le> int (length q)
        \<and> (\<forall>i < nat p. fst (q ! i) \<le> t)
        \<and> (\<forall>i. nat p \<le> i \<and> i < length q \<longrightarrow> t < fst (q ! i))"
        using "1.IH"(1)[OF True g[unfolded mid_def] less[unfolded mid_def] srt lo0] mid midlen left right'
        unfolding mid_def by auto
      moreover have "insort_event_right_loop t q lo hi = insort_event_right_loop t q lo mid"
        using True g less by (subst insort_event_right_loop.simps) (simp add: mid_def)
      ultimately show ?thesis by simp
    next
      case ge: False
      have left': "\<forall>i < nat (mid + 1). fst (q ! i) \<le> t"
      proof (intro allI impI)
        fix i assume "i < nat (mid + 1)"
        then have "i \<le> nat mid" using mid0 by auto
        from mono[OF this midlen] ge show "fst (q ! i) \<le> t" by simp
      qed
      have "\<exists>p. insort_event_right_loop t q (mid + 1) hi = Return p \<and> 0 \<le> p \<and> p \<le> int (length q)
        \<and> (\<forall>i < nat p. fst (q ! i) \<le> t)
        \<and> (\<forall>i. nat p \<le> i \<and> i < length q \<longrightarrow> t < fst (q ! i))"
        using "1.IH"(2)[OF True g[unfolded mid_def] ge[unfolded mid_def] srt] mid mid0 hilen left' right
        unfolding mid_def by auto
      moreover have "insort_event_right_loop t q lo hi = insort_event_right_loop t q (mid + 1) hi"
        using True g ge by (subst insort_event_right_loop.simps) (simp add: mid_def)
      ultimately show ?thesis by simp
    qed
  qed
qed

lemma split_at_position:
  fixes q :: "(real \<times> 'a) list"
  assumes "p \<le> length q"
    and "\<forall>i < p. fst (q ! i) \<le> t"
    and "\<forall>i. p \<le> i \<and> i < length q \<longrightarrow> t < fst (q ! i)"
  shows "take p q = filter (\<lambda>x. fst x \<le> t) q \<and> drop p q = filter (\<lambda>x. t < fst x) q"
proof -
  have a: "\<forall>x \<in> set (take p q). fst x \<le> t"
  proof
    fix x assume "x \<in> set (take p q)"
    then obtain i where "i < length (take p q)" "x = take p q ! i"
      by (auto simp: in_set_conv_nth)
    then show "fst x \<le> t" using assms(1,2) by simp
  qed
  have b: "\<forall>x \<in> set (drop p q). t < fst x"
  proof
    fix x assume "x \<in> set (drop p q)"
    then obtain i where "i < length (drop p q)" "x = drop p q ! i"
      by (auto simp: in_set_conv_nth)
    then show "t < fst x" using assms(1,3) by simp
  qed
  have l1: "filter (\<lambda>x. fst x \<le> t) (take p q) = take p q"
    using a by (simp add: filter_id_conv)
  have l2: "filter (\<lambda>x. fst x \<le> t) (drop p q) = []"
    using b by (fastforce simp: filter_empty_conv)
  have r1: "filter (\<lambda>x. t < fst x) (take p q) = []"
    using a by (fastforce simp: filter_empty_conv)
  have r2: "filter (\<lambda>x. t < fst x) (drop p q) = drop p q"
    using b by (simp add: filter_id_conv)
  have "filter (\<lambda>x. fst x \<le> t) q = filter (\<lambda>x. fst x \<le> t) (take p q) @ filter (\<lambda>x. fst x \<le> t) (drop p q)"
    "filter (\<lambda>x. t < fst x) q = filter (\<lambda>x. t < fst x) (take p q) @ filter (\<lambda>x. t < fst x) (drop p q)"
    by (simp_all only: filter_append[symmetric] append_take_drop_id)
  then show ?thesis using l1 l2 r1 r2 by simp
qed

lemma insort_sorted_queue:
  assumes "queue_sorted s"
  shows "insort_event_right ev 0 None s = (Return (), s\<lparr>queue := insert_right ev (queue s)\<rparr>)"
proof -
  obtain p where p: "insort_event_right_loop (fst ev) (queue s) 0 (int (length (queue s))) = Return p"
    "0 \<le> p" "p \<le> int (length (queue s))"
    "\<forall>i < nat p. fst (queue s ! i) \<le> fst ev"
    "\<forall>i. nat p \<le> i \<and> i < length (queue s) \<longrightarrow> fst ev < fst (queue s ! i)"
    using loop_position[of "queue s" 0 "int (length (queue s))" "fst ev"] assms
    by (auto simp: queue_sorted_def)
  have "take (nat p) (queue s) = filter (\<lambda>x. fst x \<le> fst ev) (queue s)
      \<and> drop (nat p) (queue s) = filter (\<lambda>x. fst ev < fst x) (queue s)"
    using p by (intro split_at_position) auto
  then show ?thesis
    using p by (simp add: insort_event_right_def list_insert_nat insert_right_def)
qed

lemma sorted_insert_right:
  "sorted (map fst q) \<Longrightarrow> sorted (map fst (insert_right ev q))"
  by (auto simp: insert_right_def sorted_append sorted_filter intro: less_imp_le order_trans)

lemma mset_insert_right: "mset (insert_right ev q) = add_mset ev (mset q)"
  by (induction q) (auto simp: insert_right_def)

subsection \<open>A sequence of insertions sorts stably; draining the timer queue\<close>

lemma filter_insert_right:
  "filter (\<lambda>x. c = fst x) (insert_right ev q) = filter (\<lambda>x. c = fst x) (q @ [ev])"
  by (induction q) (auto simp: insert_right_def)

lemma fold_insert_right_props:
  "sorted (map fst q) \<Longrightarrow>
     sorted (map fst (fold insert_right evs q))
     \<and> mset (fold insert_right evs q) = mset (q @ evs)
     \<and> (\<forall>c. filter (\<lambda>x. c = fst x) (fold insert_right evs q) = filter (\<lambda>x. c = fst x) (q @ evs))"
proof (induction evs arbitrary: q)
  case Nil
  then show ?case by simp
next
  case (Cons ev evs)
  from Cons.IH[OF sorted_insert_right[OF Cons.prems, of ev]]
  show ?case by (simp add: mset_insert_right filter_insert_right)
qed

lemma fold_insert_right_sort_key:
  "fold insert_right evs [] = sort_key fst evs"
  using fold_insert_right_props[of "[]" evs]
  by (intro properties_for_sort_key[symmetric]) auto

lemma queue_call_sorted:
  "queue_sorted s \<Longrightarrow>
     queue_call e (Some d) f a k s
       = (Return (), s\<lparr>queue := insert_right (event_of e (world s) (d, f, a, k)) (queue s)\<rparr>)"
  by (simp add: queue_call_def insort_sorted_queue event_of_def deadline_def)

lemma queue_calls_insert:
  "queue_sorted s \<Longrightarrow>
     queue_calls e cs s = s\<lparr>queue := fold insert_right (map (event_of e (world s)) cs) (queue s)\<rparr>"
proof (induction cs arbitrary: s)
  case Nil
  then show ?case by simp
next
  case (Cons c cs)
  obtain d f a k where c: "c = (d, f, a, k)" by (cases c) auto
  let ?s1 = "s\<lparr>queue := insert_right (event_of e (world s) c) (queue s)\<rparr>"
  have "queue_sorted ?s1"
    using Cons.prems by (simp add: queue_sorted_def sorted_insert_right)
  from Cons.IH[OF this] show ?case
    using Cons.prems by (simp add: c queue_call_sorted)
qed

lemma queue_calls_new_loop:
  "queue_calls e cs (new_loop w) = (new_loop w)\<lparr>queue := sort_key fst (map (event_of e w) cs)\<rparr>"
  using queue_calls_insert[of "new_loop w" e cs]
  by (simp add: fold_insert_right_sort_key new_loop_def queue_sorted_def)

lemma run1_timer_due:
  assumes "current s = []" "idlers s = []" "queue s = (t, f, a, k) # rest"
    and "t \<le> now e (world s)" and "touches_only_world e f a k"
  shows "\<exists>w. run1 e s = (Return True,
           s\<lparr>inactive := 0, queue := rest, trace := trace s @ [(f, a, k)], world := w\<rparr>)"
proof -
  from assms(5) have
    "\<exists>r w. call e f a k (s\<lparr>inactive := 0, queue := rest, trace := trace s @ [(f, a, k)]\<rparr>)
       = (Return r, s\<lparr>inactive := 0, queue := rest, trace := trace s @ [(f, a, k)], world := w\<rparr>)"
    unfolding touches_only_world_def by (rule spec)
  then obtain r w where
    "call e f a k (s\<lparr>inactive := 0, queue := rest, trace := trace s @ [(f, a, k)]\<rparr>)
       = (Return r, s\<lparr>inactive := 0, queue := rest, trace := trace s @ [(f, a, k)], world := w\<rparr>)"
    by blast
  then have "run1 e s = (Return True,
           s\<lparr>inactive := 0, queue := rest, trace := trace s @ [(f, a, k)], world := w\<rparr>)"
    using assms(1-4) by (simp add: run1_def run0_def run_idle_def invoke_def)
  then show ?thesis by blast
qed

lemma run1_timer_wait:
  assumes "current s = []" "idlers s = []" "rpcs s = []" "queue s = (t, f, a, k) # rest"
    and "\<not> t \<le> now e (world s)"
  shows "run1 e s = (Return True, s\<lparr>world := sleep e (t - now e (world s)) (world s)\<rparr>)"
  using assms by (simp add: run1_def run0_def run_idle_def)

lemma drain_timers:
  assumes "clock_sleeps e"
  shows "(\<And>t f a k. (t, f, a, k) \<in> set (queue s) \<Longrightarrow> touches_only_world e f a k) \<Longrightarrow>
    current s = [] \<Longrightarrow> idlers s = [] \<Longrightarrow> rpcs s = [] \<Longrightarrow> inactive s = 0 \<Longrightarrow> queue s = q \<Longrightarrow>
    \<exists>w. run_loop e s = Some (Return (),
           s\<lparr>queue := [], trace := trace s @ map snd q, world := w\<rparr>)"
proof (induction q arbitrary: s)
  case Nil
  then have "quiescent s" by (simp add: quiescent_def idle_runnable_def)
  then have "run_loop e s = Some (Return (), s)"
    by (intro run_loop_stop run1_quiescent)
  moreover have "s = s\<lparr>queue := [], trace := trace s @ map snd [], world := world s\<rparr>"
    using Nil by simp
  ultimately show ?case by metis
next
  case (Cons ev rest)
  obtain t f a k where ev: "ev = (t, f, a, k)" by (cases ev) auto
  have tw: "touches_only_world e f a k" using Cons.prems(1)[of t f a k] Cons.prems(6) ev by simp
  define s0 where "s0 = (if t \<le> now e (world s) then s
                         else s\<lparr>world := sleep e (t - now e (world s)) (world s)\<rparr>)"
  have due: "t \<le> now e (world s0)"
    using assms unfolding clock_sleeps_def s0_def
    by (auto dest!: spec[of _ "t - now e (world s)"] dest: spec[of _ "world s"])
  have to_s0: "run_loop e s = run_loop e s0"
    using run1_timer_wait[of s t f a k rest e] Cons.prems ev
    by (auto simp: s0_def intro: run_loop_step)
  have s0: "current s0 = []" "idlers s0 = []" "rpcs s0 = []" "queue s0 = (t, f, a, k) # rest"
    "inactive s0 = 0" "trace s0 = trace s"
    using Cons.prems ev by (auto simp: s0_def)
  from run1_timer_due[OF s0(1,2,4) due tw] obtain w1 where
    step: "run1 e s0 = (Return True,
           s0\<lparr>inactive := 0, queue := rest, trace := trace s0 @ [(f, a, k)], world := w1\<rparr>)"
    by blast
  define s1 where "s1 = s0\<lparr>inactive := 0, queue := rest, trace := trace s0 @ [(f, a, k)], world := w1\<rparr>"
  have "\<exists>w. run_loop e s1 = Some (Return (),
           s1\<lparr>queue := [], trace := trace s1 @ map snd rest, world := w\<rparr>)"
  proof (rule Cons.IH)
    show "touches_only_world e f' a' k'" if "(t', f', a', k') \<in> set (queue s1)" for t' f' a' k'
      using that Cons.prems(1)[of t' f' a' k'] Cons.prems(6) by (simp add: s1_def)
  qed (simp_all add: s1_def s0)
  then obtain w where "run_loop e s1 = Some (Return (),
           s1\<lparr>queue := [], trace := trace s1 @ map snd rest, world := w\<rparr>)" by blast
  moreover have "s1\<lparr>queue := [], trace := trace s1 @ map snd rest, world := w\<rparr>
       = s\<lparr>queue := [], trace := trace s @ map snd (ev # rest), world := w\<rparr>"
    using Cons.prems(5) by (auto simp: s1_def s0_def ev)
  ultimately have "run_loop e s = Some (Return (),
           s\<lparr>queue := [], trace := trace s @ map snd (ev # rest), world := w\<rparr>)"
    using to_s0 run_loop_step[OF step[folded s1_def]] by simp
  then show ?case by blast
qed

subsection \<open>A step keeps the timer queue sorted\<close>

lemma invoke_sorted:
  "keeps_sorted e \<Longrightarrow> queue_sorted s \<Longrightarrow> queue_sorted (snd (invoke e f a k s))"
proof -
  assume ks: "keeps_sorted e" and qs: "queue_sorted s"
  have "queue_sorted (s\<lparr>trace := trace s @ [(f, a, k)]\<rparr>)" using qs by (simp add: queue_sorted_def)
  then show ?thesis using ks unfolding keeps_sorted_def invoke_def by blast
qed

lemma invoke_item_sorted:
  "keeps_sorted e \<Longrightarrow> queue_sorted s \<Longrightarrow> queue_sorted (snd (invoke_item e item s))"
  by (cases item) (simp add: invoke_item_def invoke_sorted)

lemma help_multi_rpc_along_sorted:
  assumes "keeps_sorted e" "queue_sorted s"
  shows "queue_sorted (snd (help_multi_rpc_along e r c a k s))"
proof -
  have "queue_sorted (snd (invoke e f a k (s\<lparr>multi_done := d\<rparr>)))" for f d
    using assms by (intro invoke_sorted) (simp_all add: queue_sorted_def)
  then show ?thesis using assms(2)
    by (auto simp: help_multi_rpc_along_def queue_sorted_def split: option.splits prod.splits result.splits
             dest!: arg_cong[where f=snd])
qed

lemma call_callback_sorted:
  "keeps_sorted e \<Longrightarrow> queue_sorted s \<Longrightarrow> queue_sorted (snd (call_callback e cb a k s))"
  by (cases cb) (simp_all add: call_callback_def invoke_sorted help_multi_rpc_along_sorted)

lemma run_idle_sorted:
  assumes "keeps_sorted e" "queue_sorted s"
  shows "queue_sorted (snd (run_idle e s))"
proof (cases "idle_runnable s")
  case False
  then show ?thesis using assms(2) by (simp add: run_idle_not_runnable)
next
  case True
  obtain f a k where hd: "hd (idlers s) = (f, a, k)" by (cases "hd (idlers s)") auto
  have "queue_sorted (snd (invoke e f a k (s\<lparr>idlers := tl (idlers s)\<rparr>)))"
    using assms by (intro invoke_sorted) (simp_all add: queue_sorted_def)
  then show ?thesis using True hd
    by (cases "invoke e f a k (s\<lparr>idlers := tl (idlers s)\<rparr>)")
       (auto simp: run_idle_def idle_runnable_def queue_sorted_def split: option.splits result.splits)
qed

lemma run0_rpcs_sorted:
  assumes "keeps_sorted e" "queue_sorted s"
  shows "queue_sorted (snd (run0_rpcs e s))"
proof -
  obtain r s' where w: "wait_any e (map fst (rpcs s)) (s\<lparr>inactive := 0\<rparr>) = (r, s')"
    by (cases "wait_any e (map fst (rpcs s)) (s\<lparr>inactive := 0\<rparr>)") auto
  have "queue_sorted (s\<lparr>inactive := 0\<rparr>)" using assms(2) by (simp add: queue_sorted_def)
  then have "queue_sorted (snd (wait_any e (map fst (rpcs s)) (s\<lparr>inactive := 0\<rparr>)))"
    using assms(1) unfolding keeps_sorted_def by blast
  then have qs: "queue_sorted s'" by (simp add: w)
  have cc: "queue_sorted (snd (call_callback e cb a k (s'\<lparr>rpcs := d\<rparr>)))" for cb a k d
    using assms(1) qs by (intro call_callback_sorted) (simp_all add: queue_sorted_def)
  show ?thesis
    using w qs cc
    by (auto simp: run0_rpcs_def queue_sorted_def split: option.splits result.splits prod.splits
             dest!: arg_cong[where f=snd])
qed

lemma run0_sorted:
  assumes "keeps_sorted e" "queue_sorted s"
  shows "queue_sorted (snd (run0 e s))"
proof (cases "current s \<noteq> []")
  case True
  have "queue_sorted (s\<lparr>inactive := 0, current := tl (current s)\<rparr>)"
    using assms(2) by (simp add: queue_sorted_def)
  then show ?thesis
    using True assms(1) by (simp add: run0_current then_zero_snd invoke_item_sorted)
next
  case cur: False
  show ?thesis
  proof (cases "idle_runnable s")
    case True
    then show ?thesis using cur run_idle_sorted[OF assms]
      by (simp add: run0_idle then_zero_snd)
  next
    case idle: False
    show ?thesis
    proof (cases "timer_due e s")
      case True
      have "queue_sorted (s\<lparr>inactive := 0, queue := tl (queue s)\<rparr>)"
        using assms(2) by (simp add: queue_sorted_def map_tl sorted_tl)
      then show ?thesis
        using cur idle True assms(1) by (simp add: run0_timer then_zero_snd invoke_item_sorted)
    next
      case due: False
      show ?thesis
      proof (cases "rpcs s = []")
        case True
        then show ?thesis using cur idle due assms(2) by (simp add: run0_nothing_due)
      next
        case False
        then show ?thesis using cur idle due run0_rpcs_sorted[OF assms]
          by (simp add: run0_pending)
      qed
    qed
  qed
qed

subsection \<open>A composite operation completing under a script\<close>

lemma update_same_entry:
  "AList.update h en (map (\<lambda>x. (x, en)) ks) = map (\<lambda>x. (x, en)) (if h \<in> set ks then ks else ks @ [h])"
  by (induction ks) auto

lemma delete_same_entry:
  "AList.delete h (map (\<lambda>x. (x, en)) ks) = map (\<lambda>x. (x, en)) (removeAll h ks)"
  by (induction ks) auto

lemma map_of_same_entry:
  "h \<in> set ks \<Longrightarrow> map_of (map (\<lambda>x. (x, en)) ks) h = Some en"
  by (induction ks) auto

lemma register_same_entry:
  "rpcs s = map (\<lambda>x. (x, en)) ks \<Longrightarrow> distinct ks \<Longrightarrow>
     \<exists>ks'. register_rpcs hs en s = s\<lparr>rpcs := map (\<lambda>x. (x, en)) ks'\<rparr>
        \<and> distinct ks' \<and> set ks' = set ks \<union> set hs"
proof (induction hs arbitrary: s ks)
  case Nil
  then show ?case by (intro exI[of _ ks]) simp
next
  case (Cons h hs)
  let ?ks1 = "if h \<in> set ks then ks else ks @ [h]"
  let ?s1 = "s\<lparr>rpcs := AList.update h en (rpcs s)\<rparr>"
  have "rpcs ?s1 = map (\<lambda>x. (x, en)) ?ks1" using Cons.prems(1) by (simp add: update_same_entry)
  moreover have "distinct ?ks1" using Cons.prems(2) by simp
  ultimately obtain ks' where "register_rpcs hs en ?s1 = ?s1\<lparr>rpcs := map (\<lambda>x. (x, en)) ks'\<rparr>"
    "distinct ks'" "set ks' = set ?ks1 \<union> set hs"
    using Cons.IH[of ?s1 ?ks1] by blast
  then show ?case by (intro exI[of _ ks']) auto
qed

lemma world_new_loop: "world (new_loop w) = w"
  by (simp add: new_loop_def)

lemma queue_rpc_fanin:
  assumes "1 < length subs" "st0 \<noteq> IDLE"
  shows "\<exists>ks. distinct ks \<and> set ks = set subs \<and>
           queue_rpc script_env (Some (MultiRpc m subs)) (Some c) a k (new_loop (script, st0))
             = (Return (), fanin_loop m c a k ks False [] (script, st0))"
proof -
  let ?en = "(Some (HelpMultiRpcAlong m (Some c) a k), [], [])"
  define s where "s = fanin_loop m c a k [] False [] (script, st0)"
  have "rpcs s = map (\<lambda>x. (x, ?en)) []" by (simp add: s_def fanin_loop_def)
  from register_same_entry[OF this, of subs] obtain ks where
    ks: "register_rpcs subs ?en s = s\<lparr>rpcs := map (\<lambda>x. (x, ?en)) ks\<rparr>"
      "distinct ks" "set ks = set subs"
    by auto
  have st: "st0 = RUNNING \<or> st0 = FINISHING" using assms(2) by (cases st0) auto
  have "(new_loop (script, st0))\<lparr>multi_done := AList.update m False
            (multi_done (new_loop (script, st0) :: ('b, 'c, 'a, ('a \<times> rpc_state) list \<times> rpc_state) event_loop))\<rparr> = s"
    by (simp add: s_def fanin_loop_def new_loop_def)
  then have "queue_rpc script_env (Some (MultiRpc m subs)) (Some c) a k (new_loop (script, st0))
          = (Return (), register_rpcs subs ?en s)"
    using assms(1) st by (auto simp: queue_rpc_def rpc_id_def script_env_def world_new_loop)
  also have "register_rpcs subs ?en s = fanin_loop m c a k ks False [] (script, st0)"
    unfolding ks(1) by (simp add: s_def fanin_loop_def)
  finally show ?thesis using ks(2,3) by blast
qed

lemma fanin_step:
  assumes "h \<in> set ks"
  shows "run1 script_env (fanin_loop m c a k ks d tr ((h, st') # rest, st))
     = (Return True,
        fanin_loop m c a k (removeAll h ks) (d \<or> st' = FINISHING)
          (tr @ (if \<not> d \<and> st' = FINISHING then [(c, a, k)] else [])) (rest, st'))"
proof -
  let ?en = "(Some (HelpMultiRpcAlong m (Some c) a k), [], [])"
  define s where "s = fanin_loop m c a k ks d tr ((h, st') # rest, st)"
  define s4 where "s4 = fanin_loop m c a k (removeAll h ks) d tr (rest, st')"
  have sel: "current s = []" "\<not> idle_runnable s" "\<not> timer_due script_env s" "rpcs s \<noteq> []"
    using assms by (auto simp: s_def fanin_loop_def idle_runnable_def timer_due_def)
  have w: "wait_any script_env (map fst (rpcs s)) (s\<lparr>inactive := 0\<rparr>)
             = (Return (Some h), s\<lparr>world := (rest, st')\<rparr>)"
    by (simp add: script_env_def s_def fanin_loop_def)
  have look: "map_of (rpcs (s\<lparr>world := (rest, st')\<rparr>)) h = Some ?en"
    using map_of_same_entry[OF assms, of ?en] by (simp add: s_def fanin_loop_def)
  have del: "s\<lparr>world := (rest, st'), rpcs := AList.delete h (rpcs (s\<lparr>world := (rest, st')\<rparr>))\<rparr> = s4"
    by (simp add: s_def s4_def fanin_loop_def delete_same_entry)
  have guard: "help_multi_rpc_along script_env m (Some c) a k s4
     = (Return None,
        fanin_loop m c a k (removeAll h ks) (d \<or> st' = FINISHING)
          (tr @ (if \<not> d \<and> st' = FINISHING then [(c, a, k)] else [])) (rest, st'))"
    by (simp add: help_multi_rpc_along_def invoke_def script_env_def s4_def fanin_loop_def)
  have "run0_rpcs script_env s
     = (Return (Some 0),
        fanin_loop m c a k (removeAll h ks) (d \<or> st' = FINISHING)
          (tr @ (if \<not> d \<and> st' = FINISHING then [(c, a, k)] else [])) (rest, st'))"
    unfolding run0_rpcs_def w
    by (simp only: prod.case result.case option.case callback.case look del call_callback_def guard)
  then show ?thesis
    using run0_pending[OF sel] by (simp add: run1_def s_def)
qed

lemma fanin_run:
  "distinct (map fst script) \<Longrightarrow> distinct ks \<Longrightarrow> set ks = set (map fst script) \<Longrightarrow>
     run_loop script_env (fanin_loop m c a k ks d tr (script, st))
       = Some (Return (),
           fanin_loop m c a k [] (d \<or> FINISHING \<in> snd ` set script)
             (tr @ (if \<not> d \<and> FINISHING \<in> snd ` set script then [(c, a, k)] else []))
             ([], last (st # map snd script)))"
proof (induction script arbitrary: ks d tr st)
  case Nil
  then have "quiescent (fanin_loop m c a k ks d tr ([], st))"
    by (simp add: quiescent_def idle_runnable_def fanin_loop_def)
  then have "run_loop script_env (fanin_loop m c a k ks d tr ([], st))
               = Some (Return (), fanin_loop m c a k ks d tr ([], st))"
    by (intro run_loop_stop run1_quiescent)
  then show ?case using Nil by simp
next
  case (Cons p script)
  obtain h st' where p: "p = (h, st')" by (cases p) auto
  have h: "h \<in> set ks" using Cons.prems(3) p by simp
  have "run_loop script_env (fanin_loop m c a k ks d tr (p # script, st))
     = run_loop script_env (fanin_loop m c a k (removeAll h ks) (d \<or> st' = FINISHING)
          (tr @ (if \<not> d \<and> st' = FINISHING then [(c, a, k)] else [])) (script, st'))"
    unfolding p by (rule run_loop_step) (rule fanin_step[OF h])
  also have "\<dots> = Some (Return (),
           fanin_loop m c a k [] ((d \<or> st' = FINISHING) \<or> FINISHING \<in> snd ` set script)
             ((tr @ (if \<not> d \<and> st' = FINISHING then [(c, a, k)] else []))
                @ (if \<not> (d \<or> st' = FINISHING) \<and> FINISHING \<in> snd ` set script then [(c, a, k)] else []))
             ([], last (st' # map snd script)))"
    using Cons.prems p by (intro Cons.IH) (auto simp: distinct_removeAll)
  finally show ?case by (auto simp: p fanin_loop_def)
qed

section \<open>The claims\<close>

text \<open>
  C1. A single call of \<^verbatim>\<open>run0\<close> does one unit of work, chosen in strict priority order.
  If the immediate queue is not empty, it resets the inactive counter, pops the front
  item and calls it (then returns 0). Otherwise, if an idle callback is runnable, it
  pops the front idler, calls it and requeues it according to the result (returns 0).
  Otherwise, if the earliest timed event is due, it resets the counter, pops the event
  and calls it (returns 0). Otherwise, if the pending-operation table is not empty, it
  resets the counter and calls \<^verbatim>\<open>wait_any\<close> on the table's keys; for a handle of the
  table it deletes the entry and calls the entry's callback, for a handle that is not
  in the table it raises, and for no handle it does nothing more (returns 0).
  Otherwise it returns the time left until the earliest timed event, or \<^verbatim>\<open>None\<close> when the
  timer queue is empty too: when all four structures are empty, and also when idlers
  are queued but none is runnable. "Returns 0" is what the step does unless the
  callable it called, or \<^verbatim>\<open>wait_any\<close>, raised, in which case the exception is the
  step's. In every case the step invokes at most one user callable.
\<close>

theorem run0_priority_order:
  "(current s = (f, a, k) # rest \<longrightarrow>
      run0 e s = then_zero (call e f a k
        (s\<lparr>inactive := 0, current := rest, trace := trace s @ [(f, a, k)]\<rparr>)))
   \<and> (current s = [] \<and> idlers s = (f, a, k) # rest \<and> inactive s < length (idlers s) \<longrightarrow>
      run0 e s =
        (case call e f a k (s\<lparr>idlers := rest, trace := trace s @ [(f, a, k)]\<rparr>) of
           (Raise x, s') \<Rightarrow> (Raise x, s')
         | (Return None, s') \<Rightarrow> (Return (Some 0), s')
         | (Return (Some res), s') \<Rightarrow>
             (Return (Some 0),
              (if res then s'\<lparr>inactive := 0\<rparr> else s'\<lparr>inactive := inactive s' + 1\<rparr>)
                \<lparr>idlers := idlers s' @ [(f, a, k)]\<rparr>)))
   \<and> (current s = [] \<and> length (idlers s) \<le> inactive s
        \<and> queue s = (t, f, a, k) # later \<and> t \<le> now e (world s) \<longrightarrow>
      run0 e s = then_zero (call e f a k
        (s\<lparr>inactive := 0, queue := later, trace := trace s @ [(f, a, k)]\<rparr>)))
   \<and> (current s = [] \<and> length (idlers s) \<le> inactive s \<and> \<not> timer_due e s
        \<and> rpcs s \<noteq> [] \<longrightarrow>
      run0 e s =
        (case wait_any e (map fst (rpcs s)) (s\<lparr>inactive := 0\<rparr>) of
           (Raise x, s') \<Rightarrow> (Raise x, s')
         | (Return None, s') \<Rightarrow> (Return (Some 0), s')
         | (Return (Some h), s') \<Rightarrow>
             (case map_of (rpcs s') h of
                None \<Rightarrow>
                  (Raise (RuntimeError ''rpc was not given to wait_any as a choice''), s')
              | Some (None, args, kwds) \<Rightarrow>
                  (Return (Some 0), s'\<lparr>rpcs := AList.delete h (rpcs s')\<rparr>)
              | Some (Some (Fn g), args, kwds) \<Rightarrow>
                  then_zero (call e g args kwds
                    (s'\<lparr>rpcs := AList.delete h (rpcs s'),
                        trace := trace s' @ [(g, args, kwds)]\<rparr>))
              | Some (Some (HelpMultiRpcAlong r c ca ck), args, kwds) \<Rightarrow>
                  then_zero (help_multi_rpc_along e r c ca ck
                    (s'\<lparr>rpcs := AList.delete h (rpcs s')\<rparr>)))))
   \<and> (current s = [] \<and> length (idlers s) \<le> inactive s \<and> \<not> timer_due e s
        \<and> rpcs s = [] \<and> queue s \<noteq> [] \<longrightarrow>
      run0 e s = (Return (Some (fst (hd (queue s)) - now e (world s))), s))
   \<and> (current s = [] \<and> idlers s = [] \<and> queue s = [] \<and> rpcs s = [] \<longrightarrow>
      run0 e s = (Return None, s))
   \<and> (current s = [] \<and> length (idlers s) \<le> inactive s \<and> queue s = [] \<and> rpcs s = [] \<longrightarrow>
      run0 e s = (Return None, s))
   \<and> (keeps_trace e \<longrightarrow> length (trace (snd (run0 e s))) \<le> Suc (length (trace s)))"
proof (intro conjI impI)
  show "run0 e s = then_zero (call e f a k
        (s\<lparr>inactive := 0, current := rest, trace := trace s @ [(f, a, k)]\<rparr>))"
    if "current s = (f, a, k) # rest"
    using that by (rule run0_immediate_direct)
next
  assume "current s = [] \<and> idlers s = (f, a, k) # rest \<and> inactive s < length (idlers s)"
  then show "run0 e s =
        (case call e f a k (s\<lparr>idlers := rest, trace := trace s @ [(f, a, k)]\<rparr>) of
           (Raise x, s') \<Rightarrow> (Raise x, s')
         | (Return None, s') \<Rightarrow> (Return (Some 0), s')
         | (Return (Some res), s') \<Rightarrow>
             (Return (Some 0),
              (if res then s'\<lparr>inactive := 0\<rparr> else s'\<lparr>inactive := inactive s' + 1\<rparr>)
                \<lparr>idlers := idlers s' @ [(f, a, k)]\<rparr>))"
    using run0_idle_direct[of s f a k rest e] by blast
next
  assume "current s = [] \<and> length (idlers s) \<le> inactive s
        \<and> queue s = (t, f, a, k) # later \<and> t \<le> now e (world s)"
  then show "run0 e s = then_zero (call e f a k
        (s\<lparr>inactive := 0, queue := later, trace := trace s @ [(f, a, k)]\<rparr>))"
    using run0_timer_direct[of s t f a k later e] by blast
next
  assume "current s = [] \<and> length (idlers s) \<le> inactive s \<and> \<not> timer_due e s
        \<and> rpcs s \<noteq> []"
  then show "run0 e s =
        (case wait_any e (map fst (rpcs s)) (s\<lparr>inactive := 0\<rparr>) of
           (Raise x, s') \<Rightarrow> (Raise x, s')
         | (Return None, s') \<Rightarrow> (Return (Some 0), s')
         | (Return (Some h), s') \<Rightarrow>
             (case map_of (rpcs s') h of
                None \<Rightarrow>
                  (Raise (RuntimeError ''rpc was not given to wait_any as a choice''), s')
              | Some (None, args, kwds) \<Rightarrow>
                  (Return (Some 0), s'\<lparr>rpcs := AList.delete h (rpcs s')\<rparr>)
              | Some (Some (Fn g), args, kwds) \<Rightarrow>
                  then_zero (call e g args kwds
                    (s'\<lparr>rpcs := AList.delete h (rpcs s'),
                        trace := trace s' @ [(g, args, kwds)]\<rparr>))
              | Some (Some (HelpMultiRpcAlong r c ca ck), args, kwds) \<Rightarrow>
                  then_zero (help_multi_rpc_along e r c ca ck
                    (s'\<lparr>rpcs := AList.delete h (rpcs s')\<rparr>))))"
    using run0_pending_direct[of s e] by blast
next
  assume "current s = [] \<and> length (idlers s) \<le> inactive s \<and> \<not> timer_due e s
        \<and> rpcs s = [] \<and> queue s \<noteq> []"
  then show "run0 e s = (Return (Some (fst (hd (queue s)) - now e (world s))), s)"
    using run0_wait_direct[of s e] by blast
next
  assume "current s = [] \<and> idlers s = [] \<and> queue s = [] \<and> rpcs s = []"
  then show "run0 e s = (Return None, s)"
    using run0_drained_direct[of s e] by simp
next
  assume "current s = [] \<and> length (idlers s) \<le> inactive s \<and> queue s = [] \<and> rpcs s = []"
  then show "run0 e s = (Return None, s)"
    using run0_drained_direct[of s e] by simp
next
  assume "keeps_trace e"
  then show "length (trace (snd (run0 e s))) \<le> Suc (length (trace s))"
    by (rule run0_trace)
qed

theorem run0_priority_order_witness:
  "run0 quiet_env
      ((new_loop 5)\<lparr>current := [(1, [], [])], idlers := [(2, [], [])], queue := [(3, 4, [], [])]\<rparr>)
     = (Return (Some 0), (new_loop 5)\<lparr>idlers := [(2, [], [])], queue := [(3, 4, [], [])], trace := [(1, [], [])]\<rparr>)
   \<and> run0 raising_env
      ((new_loop 5)\<lparr>current := [(1, [], []), (2, [], [])], inactive := 3\<rparr>)
     = (Raise (CallbackError ''boom''), (new_loop 5)\<lparr>current := [(2, [], [])], trace := [(1, [], [])]\<rparr>)
   \<and> run0 lazy_env
      ((new_loop 5)\<lparr>idlers := [(2, [], []), (3, [], [])], queue := [(3, 4, [], [])]\<rparr>)
     = (Return (Some 0), (new_loop 5)\<lparr>idlers := [(3, [], []), (2, [], [])], inactive := 1, queue := [(3, 4, [], [])], trace := [(2, [], [])]\<rparr>)
   \<and> run0 quiet_env
      ((new_loop 5)\<lparr>queue := [(3, 4, [], []), (9, 6, [], [])], rpcs := [(7, None, [], [])]\<rparr>)
     = (Return (Some 0), (new_loop 5)\<lparr>queue := [(9, 6, [], [])], rpcs := [(7, None, [], [])], trace := [(4, [], [])]\<rparr>)
   \<and> run0 first_env
      ((new_loop 5)\<lparr>inactive := 3, queue := [(9, 4, [], [])], rpcs := [(7, Some (Fn 1), [2], []), (8, None, [], [])]\<rparr>)
     = (Return (Some 0), (new_loop 5)\<lparr>queue := [(9, 4, [], [])], rpcs := [(8, None, [], [])], trace := [(1, [2], [])]\<rparr>)
   \<and> run0 first_env
      ((new_loop 5)\<lparr>rpcs := [(7, Some (HelpMultiRpcAlong 10 (Some 1) [2] []), [], [])], multi_done := [(10, False)]\<rparr>)
     = (Return (Some 0), (new_loop 5)\<lparr>multi_done := [(10, True)], trace := [(1, [2], [])]\<rparr>)
   \<and> run0 quiet_env
      ((new_loop 5)\<lparr>inactive := 3, queue := [(9, 4, [], [])], rpcs := [(7, Some (Fn 1), [2], [])]\<rparr>)
     = (Return (Some 0), (new_loop 5)\<lparr>queue := [(9, 4, [], [])], rpcs := [(7, Some (Fn 1), [2], [])]\<rparr>)
   \<and> run0 quiet_env
      ((new_loop 5)\<lparr>queue := [(9, 4, [], [])]\<rparr>)
     = (Return (Some 4), (new_loop 5)\<lparr>queue := [(9, 4, [], [])]\<rparr>)
   \<and> run0 quiet_env
      (new_loop 5)
     = (Return None, new_loop 5)
   \<and> run0 lazy_env
      ((new_loop 5)\<lparr>idlers := [(2, [], [])], inactive := 1\<rparr>)
     = (Return None, (new_loop 5)\<lparr>idlers := [(2, [], [])], inactive := 1\<rparr>)
   \<and> length (trace (snd (run0 quiet_env
      ((new_loop 5)\<lparr>current := [(1, [], [])]\<rparr>)))) \<le> Suc 0"
  using
    run0_priority_order[where e = quiet_env and f = 1 and a = "[]" and k = "[]" and rest = "[]"
      and t = 0 and later = "[]"
      and s = "(new_loop 5)\<lparr>current := [(1, [], [])], idlers := [(2, [], [])], queue := [(3, 4, [], [])]\<rparr>"]
    run0_priority_order[where e = raising_env and f = 1 and a = "[]" and k = "[]" and rest = "[(2, [], [])]"
      and t = 0 and later = "[]"
      and s = "(new_loop 5)\<lparr>current := [(1, [], []), (2, [], [])], inactive := 3\<rparr>"]
    run0_priority_order[where e = lazy_env and f = 2 and a = "[]" and k = "[]" and rest = "[(3, [], [])]"
      and t = 0 and later = "[]"
      and s = "(new_loop 5)\<lparr>idlers := [(2, [], []), (3, [], [])], queue := [(3, 4, [], [])]\<rparr>"]
    run0_priority_order[where e = quiet_env and f = 4 and a = "[]" and k = "[]" and rest = "[]"
      and t = 3 and later = "[(9, 6, [], [])]"
      and s = "(new_loop 5)\<lparr>queue := [(3, 4, [], []), (9, 6, [], [])], rpcs := [(7, None, [], [])]\<rparr>"]
    run0_priority_order[where e = first_env and f = 1 and a = "[]" and k = "[]" and rest = "[]"
      and t = 0 and later = "[]"
      and s = "(new_loop 5)\<lparr>inactive := 3, queue := [(9, 4, [], [])], rpcs := [(7, Some (Fn 1), [2], []), (8, None, [], [])]\<rparr>"]
    run0_priority_order[where e = first_env and f = 1 and a = "[]" and k = "[]" and rest = "[]"
      and t = 0 and later = "[]"
      and s = "(new_loop 5)\<lparr>rpcs := [(7, Some (HelpMultiRpcAlong 10 (Some 1) [2] []), [], [])], multi_done := [(10, False)]\<rparr>"]
    run0_priority_order[where e = quiet_env and f = 1 and a = "[]" and k = "[]" and rest = "[]"
      and t = 0 and later = "[]"
      and s = "(new_loop 5)\<lparr>inactive := 3, queue := [(9, 4, [], [])], rpcs := [(7, Some (Fn 1), [2], [])]\<rparr>"]
    run0_priority_order[where e = quiet_env and f = 1 and a = "[]" and k = "[]" and rest = "[]"
      and t = 0 and later = "[]"
      and s = "(new_loop 5)\<lparr>queue := [(9, 4, [], [])]\<rparr>"]
    run0_priority_order[where e = quiet_env and f = 1 and a = "[]" and k = "[]" and rest = "[]"
      and t = 0 and later = "[]"
      and s = "new_loop 5"]
    run0_priority_order[where e = lazy_env and f = 1 and a = "[]" and k = "[]" and rest = "[]"
      and t = 0 and later = "[]"
      and s = "(new_loop 5)\<lparr>idlers := [(2, [], [])], inactive := 1\<rparr>"]
    run0_priority_order[where e = quiet_env and f = 1 and a = "[]" and k = "[]" and rest = "[]"
      and t = 0 and later = "[]"
      and s = "(new_loop 5)\<lparr>current := [(1, [], [])]\<rparr>"]
  by (simp_all add: quiet_env_def raising_env_def lazy_env_def first_env_def plain_env_def
        new_loop_def then_zero_def timer_due_def help_multi_rpc_along_def invoke_def keeps_trace_def)

text \<open>
  C3. The claim: an exception raised by an idle callback is caught and logged by the
  loop and does not reach the loop's caller, and the idle item is removed. The
  docstring of \<^verbatim>\<open>add_idle\<close> promises the same. The code of \<^verbatim>\<open>run_idle\<close> has no
  handler: with two idlers whose callables raise, \<^verbatim>\<open>run_idle\<close> and \<^verbatim>\<open>run\<close> end with the
  first idler's exception. The idler is gone from the queue, since it was popped
  before the call.
\<close>

theorem run_idle_propagates_exception:
  "run_idle raising_env ((new_loop 5)\<lparr>idlers := [(1, [], []), (2, [], [])]\<rparr>)
     = (Raise (CallbackError ''boom''),
        (new_loop 5)\<lparr>idlers := [(2, [], [])], trace := [(1, [], [])]\<rparr>)
   \<and> run raising_env ((new_loop 5)\<lparr>idlers := [(1, [], []), (2, [], [])]\<rparr>)
     = Some (Raise (CallbackError ''boom''),
        (new_loop 5)\<lparr>idlers := [(2, [], [])], trace := [(1, [], [])]\<rparr>)"
  unfolding run_def
  by (subst run_loop.simps)
     (simp add: run1_def run0_def run_idle_def invoke_def
        raising_env_def plain_env_def new_loop_def)

text \<open>
  C5. \<^verbatim>\<open>queue_call(delay, callback, *args, **kwds)\<close>: with \<^verbatim>\<open>delay = None\<close> the item is
  appended to the immediate queue; with a delay below \<^verbatim>\<open>1e9\<close> an event with deadline
  \<^verbatim>\<open>delay + now\<close> is inserted somewhere into the timer queue; with a delay of \<^verbatim>\<open>1e9\<close>
  or more the event's deadline is the delay itself; in both timed cases nothing but
  the timer queue changes, so the immediate queue is as it was.
\<close>

theorem queue_call_cases:
  "(delay = None \<longrightarrow>
      queue_call e delay callback args kwds s
        = (Return (), s\<lparr>current := current s @ [(callback, args, kwds)]\<rparr>))
   \<and> (delay = Some d \<and> d < 1000000000 \<longrightarrow>
      (\<exists>p\<le>length (queue s). queue_call e delay callback args kwds s
        = (Return (), s\<lparr>queue := take p (queue s)
             @ (d + now e (world s), callback, args, kwds) # drop p (queue s)\<rparr>)))
   \<and> (delay = Some d \<and> \<not> d < 1000000000 \<longrightarrow>
      (\<exists>p\<le>length (queue s). queue_call e delay callback args kwds s
        = (Return (), s\<lparr>queue := take p (queue s)
             @ (d, callback, args, kwds) # drop p (queue s)\<rparr>)))
   \<and> (delay \<noteq> None \<longrightarrow>
      current (snd (queue_call e delay callback args kwds s)) = current s)"
proof -
  have timed: "\<exists>p\<le>length (queue s). queue_call e (Some x) callback args kwds s
        = (Return (), s\<lparr>queue := take p (queue s)
             @ (deadline e (world s) x, callback, args, kwds) # drop p (queue s)\<rparr>)" for x
    using insort_default_returns[of s "(deadline e (world s) x, callback, args, kwds)"]
    by (simp add: queue_call_def deadline_def)
  have rel: "d < 1000000000 \<Longrightarrow> deadline e (world s) d = d + now e (world s)"
    and ab: "\<not> d < 1000000000 \<Longrightarrow> deadline e (world s) d = d"
    by (simp_all add: deadline_def)
  have cur: "current (snd (queue_call e (Some x) callback args kwds s)) = current s" for x
    using timed[of x] by auto
  show ?thesis
  proof (cases delay)
    case None
    then show ?thesis by (simp add: queue_call_def)
  next
    case (Some x)
    then show ?thesis using timed[of d] rel ab cur[of x] by auto
  qed
qed

theorem queue_call_cases_witness:
  "queue_call quiet_env None 1 [2] [] ((new_loop 5)\<lparr>current := [(3, [], [])]\<rparr>)
     = (Return (), (new_loop 5)\<lparr>current := [(3, [], []), (1, [2], [])]\<rparr>)
   \<and> queue_call quiet_env (Some 2) 1 [2] [] ((new_loop 5)\<lparr>queue := [(6, 3, [], []), (8, 3, [], [])]\<rparr>)
     = (Return (), (new_loop 5)\<lparr>queue := [(6, 3, [], []), (7, 1, [2], []), (8, 3, [], [])]\<rparr>)
   \<and> queue_call quiet_env (Some 2000000000) 1 [2] [] ((new_loop 5)\<lparr>queue := [(6, 3, [], [])]\<rparr>)
     = (Return (), (new_loop 5)\<lparr>queue := [(6, 3, [], []), (2000000000, 1, [2], [])]\<rparr>)"
  using queue_call_cases[of None quiet_env 1 "[2]" "[]" "(new_loop 5)\<lparr>current := [(3, [], [])]\<rparr>" 0]
    queue_call_cases[of "Some 2" quiet_env 1 "[2]" "[]" "(new_loop 5)\<lparr>queue := [(6, 3, [], []), (8, 3, [], [])]\<rparr>" 2]
    queue_call_cases[of "Some 2000000000" quiet_env 1 "[2]" "[]" "(new_loop 5)\<lparr>queue := [(6, 3, [], [])]\<rparr>" 2000000000]
  by (simp add: queue_call_def insort_event_right_def insort_event_right_loop.simps getitem_def
        list_insert_def quiet_env_def plain_env_def new_loop_def)

text \<open>
  C8. For an operation that is neither running nor finishing, \<^verbatim>\<open>queue_rpc\<close> raises the
  RuntimeError and leaves the loop, the pending-operation table included, as it was;
  for an operation that is running or finishing it returns without raising.
\<close>

theorem queue_rpc_requires_dispatch:
  "(rpc_state_of e (rpc_id r) (world s) \<notin> {RUNNING, FINISHING} \<longrightarrow>
      queue_rpc e (Some r) callback args kwds s
        = (Raise (RuntimeError ''rpc must be sent to service before queueing''), s))
   \<and> (rpc_state_of e (rpc_id r) (world s) \<in> {RUNNING, FINISHING} \<longrightarrow>
      fst (queue_rpc e (Some r) callback args kwds s) = Return ())"
  by (simp add: queue_rpc_def split: rpc.split)

theorem queue_rpc_requires_dispatch_witness:
  "queue_rpc unsent_env (Some (UserRPC 7)) (Some 1) [] [] (new_loop 5)
     = (Raise (RuntimeError ''rpc must be sent to service before queueing''), new_loop 5)
   \<and> queue_rpc unsent_env (Some (MultiRpc 7 [8, 9])) (Some 1) [] [] (new_loop 5)
     = (Raise (RuntimeError ''rpc must be sent to service before queueing''), new_loop 5)
   \<and> fst (queue_rpc quiet_env (Some (UserRPC 7)) (Some 1) [] [] (new_loop 5)) = Return ()"
  using queue_rpc_requires_dispatch[of unsent_env "UserRPC 7" "new_loop 5" "Some 1" "[]" "[]"]
    queue_rpc_requires_dispatch[of unsent_env "MultiRpc 7 [8, 9]" "new_loop 5" "Some 1" "[]" "[]"]
    queue_rpc_requires_dispatch[of quiet_env "UserRPC 7" "new_loop 5" "Some 1" "[]" "[]"]
  by (simp add: unsent_env_def quiet_env_def plain_env_def)

text \<open>
  C9. When a step reaches the pending-operation table (nothing immediate, no idle
  callback runnable, no timer due, table not empty) and \<^verbatim>\<open>wait_any\<close> returns a handle
  that is not a key of the table, the step raises the RuntimeError; the loop is left as
  \<^verbatim>\<open>wait_any\<close> left it, so no callback is invoked.
\<close>

theorem run0_unknown_handle_raises:
  "current s = [] \<and> \<not> idle_runnable s \<and> \<not> timer_due e s \<and> rpcs s \<noteq> []
   \<and> wait_any e (map fst (rpcs s)) (s\<lparr>inactive := 0\<rparr>) = (Return (Some h), s')
   \<and> h \<notin> fst ` set (rpcs s')
   \<longrightarrow> run0 e s = (Raise (RuntimeError ''rpc was not given to wait_any as a choice''), s')"
proof -
  have "map_of (rpcs s') h = None" if "h \<notin> fst ` set (rpcs s')"
    using that by (simp add: map_of_eq_None_iff)
  then show ?thesis
    by (auto simp: run0_pending run0_rpcs_def)
qed

theorem run0_unknown_handle_raises_witness:
  "run0 stray_env ((new_loop 5)\<lparr>inactive := 3, rpcs := [(7, Some (Fn 1), [], [])]\<rparr>)
     = (Raise (RuntimeError ''rpc was not given to wait_any as a choice''),
        (new_loop 5)\<lparr>rpcs := [(7, Some (Fn 1), [], [])]\<rparr>)"
  using run0_unknown_handle_raises[of "(new_loop 5)\<lparr>inactive := 3, rpcs := [(7, Some (Fn 1), [], [])]\<rparr>"
      stray_env 99 "(new_loop 5)\<lparr>rpcs := [(7, Some (Fn 1), [], [])]\<rparr>"]
  by (simp add: stray_env_def plain_env_def new_loop_def idle_runnable_def timer_due_def)

text \<open>
  C10. \<^verbatim>\<open>queue_rpc\<close> with \<^verbatim>\<open>rpc = None\<close> returns normally and changes nothing: the four
  structures and the inactive counter are as before.
\<close>

theorem queue_rpc_none_is_noop:
  "queue_rpc e None callback args kwds s = (Return (), s)"
  by (simp add: queue_rpc_def)

theorem queue_rpc_none_is_noop_witness:
  "queue_rpc unsent_env None (Some 1) [2] []
      ((new_loop 5)\<lparr>current := [(3, [], [])], idlers := [(4, [], [])], inactive := 1,
                     queue := [(6, 3, [], [])], rpcs := [(7, None, [], [])]\<rparr>)
     = (Return (),
        (new_loop 5)\<lparr>current := [(3, [], [])], idlers := [(4, [], [])], inactive := 1,
                      queue := [(6, 3, [], [])], rpcs := [(7, None, [], [])]\<rparr>)"
  using queue_rpc_none_is_noop[of unsent_env "Some 1" "[2]" "[]"
      "(new_loop 5)\<lparr>current := [(3, [], [])], idlers := [(4, [], [])], inactive := 1,
                      queue := [(6, 3, [], [])], rpcs := [(7, None, [], [])]\<rparr>"]
  by simp

text \<open>
  C2, as the code has it. The claim that \<^verbatim>\<open>run\<close> never returns while one of the four
  structures is non-empty fails for the idler queue: idle items that report "no work"
  stay registered, and \<^verbatim>\<open>run\<close> returns once each of them has done so. What holds:
  \<^verbatim>\<open>run\<close> returns normally, in the loop \<open>s'\<close>, exactly when finitely many steps that
  report work lead from the start to \<open>s'\<close> and \<open>s'\<close> is quiescent: the immediate queue,
  the timer queue and the pending-operation table are empty and no idle callback is
  runnable (the idler queue is empty, or the inactive counter has reached its length).
  In particular \<^verbatim>\<open>run\<close> returns when the steps lead to a loop whose four structures are
  all empty.
\<close>

theorem run_returns_iff_quiescent:
  "(run e s = Some (Return (), s') \<longleftrightarrow>
      (\<exists>n. run1_iter e n (s\<lparr>inactive := 0\<rparr>) = Some s' \<and> quiescent s'))
   \<and> (run1_iter e n (s\<lparr>inactive := 0\<rparr>) = Some s' \<and> current s' = [] \<and> idlers s' = []
        \<and> queue s' = [] \<and> rpcs s' = [] \<longrightarrow> run e s = Some (Return (), s'))
   \<and> (run e s = Some (Return (), s') \<longrightarrow>
        current s' = [] \<and> queue s' = [] \<and> rpcs s' = []
        \<and> (idlers s' = [] \<or> length (idlers s') \<le> inactive s'))"
proof -
  have iff: "run e s = Some (Return (), s') \<longleftrightarrow>
      (\<exists>n. run1_iter e n (s\<lparr>inactive := 0\<rparr>) = Some s' \<and> quiescent s')"
    unfolding run_def using run_loop_reaches run_loop_returned by blast
  have "quiescent s'" if "current s' = []" "idlers s' = []" "queue s' = []" "rpcs s' = []"
    using that by (simp add: quiescent_def idle_runnable_def)
  moreover have "current s' = [] \<and> queue s' = [] \<and> rpcs s' = []
        \<and> (idlers s' = [] \<or> length (idlers s') \<le> inactive s')" if "quiescent s'"
    using that by (auto simp: quiescent_def idle_runnable_def)
  ultimately show ?thesis using iff by blast
qed

theorem run_returns_iff_quiescent_witness:
  "run quiet_env ((new_loop 5)\<lparr>current := [(1, [], [])], inactive := 4\<rparr>)
     = Some (Return (), (new_loop 5)\<lparr>trace := [(1, [], [])]\<rparr>)
   \<and> quiescent ((new_loop 5 :: (nat, nat, nat, real) event_loop)\<lparr>trace := [(1, [], [])]\<rparr>)"
  using run_returns_iff_quiescent[of quiet_env "(new_loop 5)\<lparr>current := [(1, [], [])], inactive := 4\<rparr>"
      "(new_loop 5)\<lparr>trace := [(1, [], [])]\<rparr>" "Suc 0"]
  by (simp add: run1_def run0_def invoke_def quiet_env_def plain_env_def new_loop_def
       quiescent_def idle_runnable_def)

text \<open>
  The counterexample to C2 as stated: with one idle item that reports "no work",
  \<^verbatim>\<open>run\<close> returns although the idler queue is not empty.
\<close>

theorem run_returns_with_idlers_left:
  "run lazy_env ((new_loop 5)\<lparr>idlers := [(1, [], [])]\<rparr>)
     = Some (Return (), (new_loop 5)\<lparr>idlers := [(1, [], [])], inactive := 1, trace := [(1, [], [])]\<rparr>)
   \<and> idlers ((new_loop 5 :: (nat, nat, nat, real) event_loop)\<lparr>idlers := [(1, [], [])], inactive := 1, trace := [(1, [], [])]\<rparr>) \<noteq> []"
  unfolding run_def
  apply (subst run_loop.simps)
  apply (simp add: run1_def run0_def run_idle_def invoke_def lazy_env_def plain_env_def new_loop_def)
  apply (subst run_loop.simps)
  apply (simp add: run1_def run0_def run_idle_def invoke_def lazy_env_def plain_env_def new_loop_def)
  done

text \<open>
  C7. In a loop that holds only idle items, each of which reports "no work" and
  touches nothing of the loop: one call of \<^verbatim>\<open>run\<close> returns, having invoked every idle
  item exactly once, in order (the trace grows by the idler queue); afterwards the
  inactive counter is the number of idlers and the idler queue is as before.
  \<^verbatim>\<open>run_idle\<close> returns \<^verbatim>\<open>False\<close> and changes nothing unless the inactive counter is below
  the number of idlers, and does run an idler when it is.
\<close>

theorem idle_backoff_after_one_pass:
  "(current s = [] \<and> queue s = [] \<and> rpcs s = []
      \<and> (\<forall>(f, a, k) \<in> set (idlers s). reports_no_work e f a k) \<longrightarrow>
      (\<exists>w. run e s = Some (Return (),
         s\<lparr>inactive := length (idlers s), trace := trace s @ idlers s, world := w\<rparr>)))
   \<and> (\<not> inactive s < length (idlers s) \<longrightarrow> run_idle e s = (Return False, s))
   \<and> (inactive s < length (idlers s) \<longrightarrow> fst (run_idle e s) \<noteq> Return False)"
proof -
  have "\<exists>w. run e s = Some (Return (),
         s\<lparr>inactive := length (idlers s), trace := trace s @ idlers s, world := w\<rparr>)"
    if "current s = []" "queue s = []" "rpcs s = []"
      and nw: "\<forall>(f, a, k) \<in> set (idlers s). reports_no_work e f a k"
  proof -
    have "\<exists>w. run_loop e (s\<lparr>inactive := 0\<rparr>) = Some (Return (),
           s\<lparr>inactive := 0\<rparr>\<lparr>idlers := [] @ idlers s, inactive := length ([]::('a, 'b) item list) + length (idlers s),
             trace := trace (s\<lparr>inactive := 0\<rparr>) @ idlers s, world := w\<rparr>)"
      using that by (intro idle_round) auto
    then show ?thesis by (simp add: run_def)
  qed
  then show ?thesis
    using run_idle_not_runnable[of s e] run_idle_runnable[of s e]
    by (auto simp: idle_runnable_def)
qed

theorem idle_backoff_after_one_pass_witness:
  "map_option (\<lambda>(r, s'). (r, idlers s', inactive s', trace s'))
      (run lazy_env ((new_loop 5)\<lparr>idlers := [(1, [], []), (2, [10], []), (3, [], [])],
                                    inactive := 7\<rparr>))
     = Some (Return (), [(1, [], []), (2, [10], []), (3, [], [])], 3,
             [(1, [], []), (2, [10], []), (3, [], [])])
   \<and> run_idle lazy_env ((new_loop 5)\<lparr>idlers := [(1, [], []), (2, [10], [])], inactive := 2\<rparr>)
     = (Return False, (new_loop 5)\<lparr>idlers := [(1, [], []), (2, [10], [])], inactive := 2\<rparr>)
   \<and> fst (run_idle lazy_env ((new_loop 5)\<lparr>idlers := [(1, [], []), (2, [10], [])],
                                           inactive := 1\<rparr>)) \<noteq> Return False"
proof -
  have nw: "reports_no_work lazy_env f a k" for f a k
    by (simp add: reports_no_work_def lazy_env_def plain_env_def same_but_world)
  show ?thesis
    using idle_backoff_after_one_pass[of
        "(new_loop 5)\<lparr>idlers := [(1, [], []), (2, [10], []), (3, [], [])], inactive := 7\<rparr>" lazy_env]
      idle_backoff_after_one_pass[of
        "(new_loop 5)\<lparr>idlers := [(1, [], []), (2, [10], [])], inactive := 2\<rparr>" lazy_env]
      idle_backoff_after_one_pass[of
        "(new_loop 5)\<lparr>idlers := [(1, [], []), (2, [10], [])], inactive := 1\<rparr>" lazy_env]
    by (auto simp: nw new_loop_def)
qed

text \<open>
  C4. The timer queue stays sorted by deadline and ties keep their insertion order:
  into a sorted queue \<^verbatim>\<open>insort_event_right\<close> (with its default bounds) puts the event to
  the right of every event with an equal or smaller deadline and before every later
  one, which leaves the queue sorted; so does \<^verbatim>\<open>queue_call\<close>, and so does a step
  \<^verbatim>\<open>run0\<close> when the user code it calls leaves a sorted queue sorted. Hence after any
  sequence of \<^verbatim>\<open>queue_call\<close>s on a new loop the queue is the stable sort, by deadline, of
  the events in the order they were queued; and with callables that return and touch
  only the world, and a clock whose sleep lasts, \<^verbatim>\<open>run\<close> returns having invoked the
  callables in exactly that order: by nondecreasing deadline, whatever the order of
  insertion.
\<close>

theorem timer_queue_sorted_stable:
  "(queue_sorted s \<longrightarrow>
      insort_event_right ev 0 None s = (Return (), s\<lparr>queue := insert_right ev (queue s)\<rparr>)
      \<and> queue_sorted (snd (insort_event_right ev 0 None s))
      \<and> queue_sorted (snd (queue_call e delay f a k s)))
   \<and> (keeps_sorted e \<and> queue_sorted s \<longrightarrow> queue_sorted (snd (run0 e s)))
   \<and> queue (queue_calls e cs (new_loop w)) = sort_key fst (map (event_of e w) cs)
   \<and> ((\<forall>(d, f, a, k) \<in> set cs. touches_only_world e f a k) \<and> clock_sleeps e \<longrightarrow>
        (\<exists>w'. run e (queue_calls e cs (new_loop w))
           = Some (Return (),
               (new_loop w')\<lparr>trace := map snd (sort_key fst (map (event_of e w) cs))\<rparr>)))"
proof -
  have ins: "queue_sorted (snd (insort_event_right ev 0 None s))" if "queue_sorted s" for ev
    using that by (simp add: insort_sorted_queue queue_sorted_def sorted_insert_right)
  have qc: "queue_sorted (snd (queue_call e delay f a k s))" if "queue_sorted s"
    using that ins by (cases delay) (simp_all add: queue_call_def queue_sorted_def)
  have drain: "\<exists>w'. run e (queue_calls e cs (new_loop w))
           = Some (Return (),
               (new_loop w')\<lparr>trace := map snd (sort_key fst (map (event_of e w) cs))\<rparr>)"
    if tw: "\<forall>(d, f, a, k) \<in> set cs. touches_only_world e f a k" and cl: "clock_sleeps e"
  proof -
    let ?q = "sort_key fst (map (event_of e w) cs)"
    let ?s = "(new_loop w)\<lparr>queue := ?q, inactive := 0\<rparr>"
    have tw': "touches_only_world e f' a' k'" if "(t', f', a', k') \<in> set (queue ?s)" for t' f' a' k'
      using that tw by (auto simp: event_of_def)
    have "\<exists>w'. run_loop e ?s = Some (Return (),
           ?s\<lparr>queue := [], trace := trace ?s @ map snd ?q, world := w'\<rparr>)"
      using drain_timers[OF cl, of ?s ?q] tw' by (simp add: new_loop_def)
    moreover have "(queue_calls e cs (new_loop w))\<lparr>inactive := 0\<rparr> = ?s"
      by (simp add: queue_calls_new_loop)
    ultimately show ?thesis
      unfolding run_def by (simp add: new_loop_def)
  qed
  show ?thesis
    using insort_sorted_queue[of s ev] ins[of ev] qc run0_sorted[of e s] drain
    by (simp add: queue_calls_new_loop)
qed

theorem timer_queue_sorted_stable_witness:
  "insort_event_right (6, 9, [], []) 0 None
      ((new_loop 5 :: (nat, nat, nat, real) event_loop)
         \<lparr>queue := [(5, 1, [], []), (6, 2, [], []), (7, 3, [], [])]\<rparr>)
     = (Return (),
        (new_loop 5)\<lparr>queue := [(5, 1, [], []), (6, 2, [], []), (6, 9, [], []), (7, 3, [], [])]\<rparr>)
   \<and> queue_sorted (snd (run0 quiet_env
        ((new_loop 5)\<lparr>queue := [(5, 1, [], []), (6, 2, [], []), (7, 3, [], [])]\<rparr>)))
   \<and> queue (queue_calls quiet_env [(1, 1, [], []), (3, 3, [], []), (2, 2, [], [])] (new_loop 100))
     = [(101, 1, [], []), (102, 2, [], []), (103, 3, [], [])]
   \<and> map_option (\<lambda>(r, s'). (r, trace s', queue s'))
        (run quiet_env
           (queue_calls quiet_env [(1, 1, [], []), (3, 3, [], []), (2, 2, [], [])] (new_loop 100)))
     = Some (Return (), [(1, [], []), (2, [], []), (3, [], [])], [])"
proof -
  have tw: "touches_only_world quiet_env f a k" for f a k
    by (simp add: touches_only_world_def quiet_env_def plain_env_def same_but_world)
  have cl: "clock_sleeps quiet_env"
    by (simp add: clock_sleeps_def quiet_env_def plain_env_def)
  have ks: "keeps_sorted quiet_env"
    by (simp add: keeps_sorted_def quiet_env_def plain_env_def)
  have now: "now quiet_env w = w" for w
    by (simp add: quiet_env_def plain_env_def)
  show ?thesis
    using
      timer_queue_sorted_stable[of
        "(new_loop 5)\<lparr>queue := [(5, 1, [], []), (6, 2, [], []), (7, 3, [], [])]\<rparr>"
        "(6, 9, [], [])" quiet_env None 1 "[]" "[]"
        "[(1, 1, [], []), (3, 3, [], []), (2, 2, [], [])]" 100]
    by (auto simp: tw cl ks now queue_sorted_def insert_right_def event_of_def deadline_def new_loop_def)
qed

text \<open>
  C6. The closure that \<^verbatim>\<open>queue_rpc\<close> registers for a MultiRpc with more than one
  sub-RPC calls the callback only when it sees the MultiRpc's state \<^verbatim>\<open>FINISHING\<close> with
  the flag \<^verbatim>\<open>__done\<close> unset, and sets the flag before the call; with the flag set, or
  in any other state, it does nothing. So when the sub-operations complete in any
  order \<open>script\<close>, each completion showing some state of the MultiRpc, \<^verbatim>\<open>run\<close> returns
  with the table empty and the callback invoked exactly once if some completion showed
  \<^verbatim>\<open>FINISHING\<close> (as the last one does when the state is the aggregate of the
  sub-operations' states), and not at all otherwise.
\<close>

theorem multi_rpc_callback_fires_once:
  "(map_of (multi_done s) r = Some True \<longrightarrow>
      help_multi_rpc_along e r cb a k s = (Return None, s))
   \<and> (rpc_state_of e r (world s) \<noteq> FINISHING \<longrightarrow>
      help_multi_rpc_along e r cb a k s = (Return None, s))
   \<and> (rpc_state_of e r (world s) = FINISHING \<and> map_of (multi_done s) r = Some False \<longrightarrow>
      help_multi_rpc_along e r (Some c) a k s
        = (case invoke e c a k (s\<lparr>multi_done := AList.update r True (multi_done s)\<rparr>) of
             (Raise x, s') \<Rightarrow> (Raise x, s')
           | (Return v, s') \<Rightarrow> (Return None, s')))
   \<and> (1 < length subs \<and> first \<noteq> IDLE \<and> distinct (map fst script)
        \<and> set (map fst script) = set subs \<longrightarrow>
      run script_env
          (snd (queue_rpc script_env (Some (MultiRpc m subs)) (Some c) a k
                  (new_loop (script, first))))
        = Some (Return (),
            fanin_loop m c a k [] (FINISHING \<in> snd ` set script)
              (if FINISHING \<in> snd ` set script then [(c, a, k)] else [])
              ([], last (first # map snd script))))"
proof -
  have fanin: "run script_env
          (snd (queue_rpc script_env (Some (MultiRpc m subs)) (Some c) a k
                  (new_loop (script, first))))
        = Some (Return (),
            fanin_loop m c a k [] (FINISHING \<in> snd ` set script)
              (if FINISHING \<in> snd ` set script then [(c, a, k)] else [])
              ([], last (first # map snd script)))"
    if "1 < length subs" "first \<noteq> IDLE" "distinct (map fst script)"
      "set (map fst script) = set subs"
  proof -
    from queue_rpc_fanin[OF that(1,2), of m c a k script] obtain ks where
      ks: "distinct ks" "set ks = set subs"
      and q: "queue_rpc script_env (Some (MultiRpc m subs)) (Some c) a k (new_loop (script, first))
             = (Return (), fanin_loop m c a k ks False [] (script, first))"
      by blast
    have "(fanin_loop m c a k ks False [] (script, first))\<lparr>inactive := 0\<rparr>
            = fanin_loop m c a k ks False [] (script, first)"
      by (simp add: fanin_loop_def)
    then show ?thesis
      using fanin_run[OF that(3) ks(1), of m c a k False "[]" first] ks(2) that(4)
      by (simp add: run_def q)
  qed
  have g1: "map_of (multi_done s) r = Some True \<Longrightarrow>
      help_multi_rpc_along e r cb a k s = (Return None, s)"
    by (simp add: help_multi_rpc_along_def)
  have g2: "rpc_state_of e r (world s) \<noteq> FINISHING \<Longrightarrow>
      help_multi_rpc_along e r cb a k s = (Return None, s)"
    by (simp add: help_multi_rpc_along_def)
  have g3: "rpc_state_of e r (world s) = FINISHING \<Longrightarrow> map_of (multi_done s) r = Some False \<Longrightarrow>
      help_multi_rpc_along e r (Some c) a k s
        = (case invoke e c a k (s\<lparr>multi_done := AList.update r True (multi_done s)\<rparr>) of
             (Raise x, s') \<Rightarrow> (Raise x, s')
           | (Return v, s') \<Rightarrow> (Return None, s'))"
    by (simp add: help_multi_rpc_along_def)
  show ?thesis
    using fanin g1 g2 g3 by blast
qed

theorem multi_rpc_callback_fires_once_witness:
  "run script_env
      (snd (queue_rpc script_env (Some (MultiRpc 10 [11, 12, 13])) (Some 5) [7] []
              (new_loop ([(12, RUNNING), (11, RUNNING), (13, FINISHING)], RUNNING))))
     = Some (Return (),
         (fanin_loop 10 5 [7] [] [] True [(5, [7], [])] ([], FINISHING)
            :: (nat, nat, nat, (nat \<times> rpc_state) list \<times> rpc_state) event_loop))
   \<and> help_multi_rpc_along script_env 10 (Some 5) [7] []
        (fanin_loop 10 5 [7] [] [11] True [(5, [7], [])] ([], FINISHING)
           :: (nat, nat, nat, (nat \<times> rpc_state) list \<times> rpc_state) event_loop)
     = (Return None, fanin_loop 10 5 [7] [] [11] True [(5, [7], [])] ([], FINISHING))
   \<and> help_multi_rpc_along script_env 10 (Some 5) [7] []
        (fanin_loop 10 5 [7] [] [11] False [] ([], RUNNING)
           :: (nat, nat, nat, (nat \<times> rpc_state) list \<times> rpc_state) event_loop)
     = (Return None, fanin_loop 10 5 [7] [] [11] False [] ([], RUNNING))
   \<and> help_multi_rpc_along script_env 10 (Some 5) [7] []
        (fanin_loop 10 5 [7] [] [11] False [] ([], FINISHING)
           :: (nat, nat, nat, (nat \<times> rpc_state) list \<times> rpc_state) event_loop)
     = (Return None, fanin_loop 10 5 [7] [] [11] True [(5, [7], [])] ([], FINISHING))"
proof -
  let ?script = "[(12::nat, RUNNING), (11, RUNNING), (13, FINISHING)]"
  let ?a = "fanin_loop 10 5 [7] [] [11] True [(5, [7], [])] ([], FINISHING) 
        :: (nat, nat, nat, (nat \<times> rpc_state) list \<times> rpc_state) event_loop"
  let ?b = "fanin_loop 10 5 [7] [] [11] False [] ([], RUNNING) 
        :: (nat, nat, nat, (nat \<times> rpc_state) list \<times> rpc_state) event_loop"
  let ?c = "fanin_loop 10 5 [7] [] [11] False [] ([], FINISHING) 
        :: (nat, nat, nat, (nat \<times> rpc_state) list \<times> rpc_state) event_loop"
  have pre: "1 < length [11, 12, 13 :: nat] \<and> RUNNING \<noteq> IDLE \<and> distinct (map fst ?script)
      \<and> set (map fst ?script) = set [11, 12, 13 :: nat]"
    by auto
  have ev: "FINISHING \<in> snd ` set ?script" "last (RUNNING # map snd ?script) = FINISHING"
    by simp_all
  have c1: "run script_env
      (snd (queue_rpc script_env (Some (MultiRpc 10 [11, 12, 13])) (Some 5) [7] []
              (new_loop (?script, RUNNING))))
     = Some (Return (), (fanin_loop 10 5 [7] [] [] True [(5, [7], [])] ([], FINISHING) 
        :: (nat, nat, nat, (nat \<times> rpc_state) list \<times> rpc_state) event_loop))"
    using multi_rpc_callback_fires_once[where e = script_env and s = ?a and r = 10
        and cb = "Some 5" and c = 5 and a = "[7]" and k = "[]" and m = 10
        and subs = "[11, 12, 13]" and first = RUNNING and script = ?script,
        THEN conjunct2, THEN conjunct2, THEN conjunct2, THEN mp, OF pre]
    by (simp only: ev if_True)
  have pa: "map_of (multi_done ?a) 10 = Some True"
    by (simp add: fanin_loop_def)
  have c2: "help_multi_rpc_along script_env 10 (Some 5) [7] [] ?a = (Return None, ?a)"
    using multi_rpc_callback_fires_once[where e = script_env and s = ?a and r = 10
        and cb = "Some 5" and c = 5 and a = "[7]" and k = "[]" and m = 10
        and subs = "[11, 12, 13]" and first = RUNNING and script = ?script,
        THEN conjunct1, THEN mp, OF pa] .
  have pb: "rpc_state_of script_env 10 (world ?b) \<noteq> FINISHING"
    by (simp add: fanin_loop_def script_env_def)
  have c3: "help_multi_rpc_along script_env 10 (Some 5) [7] [] ?b = (Return None, ?b)"
    using multi_rpc_callback_fires_once[where e = script_env and s = ?b and r = 10
        and cb = "Some 5" and c = 5 and a = "[7]" and k = "[]" and m = 10
        and subs = "[11, 12, 13]" and first = RUNNING and script = ?script,
        THEN conjunct2, THEN conjunct1, THEN mp, OF pb] .
  have pc: "rpc_state_of script_env 10 (world ?c) = FINISHING \<and> map_of (multi_done ?c) 10 = Some False"
    by (simp add: fanin_loop_def script_env_def)
  have c4: "help_multi_rpc_along script_env 10 (Some 5) [7] [] ?c = (Return None, ?a)"
    using multi_rpc_callback_fires_once[where e = script_env and s = ?c and r = 10
        and cb = "Some 5" and c = 5 and a = "[7]" and k = "[]" and m = 10
        and subs = "[11, 12, 13]" and first = RUNNING and script = ?script,
        THEN conjunct2, THEN conjunct2, THEN conjunct1, THEN mp, OF pc]
    by (simp add: invoke_def script_env_def fanin_loop_def)
  show ?thesis using c1 c2 c3 c4 by (intro conjI)
qed

end
